theory Spec2Isabelle
  imports Main "HOL-Library.Word" "HOL-Library.Sublist"
begin

section \<open>Strings of the page\<close>

text \<open>
  A JavaScript string is a sequence of 16-bit code units. String literals of the source are
  ASCII, written here with \<open>str\<close>.
\<close>

type_synonym code_unit = "16 word"
type_synonym jsstring = "code_unit list"

definition str :: "string \<Rightarrow> jsstring" where
  "str s = map of_char s"

text \<open>
  \<^verbatim>\<open>String.prototype.trim\<close> removes leading and trailing white space and line terminators
  (ECMAScript: TAB, VT, FF, SP, NBSP, ZWNBSP, the space separators, and LF, CR, LS, PS).
\<close>

definition WhiteSpace :: "code_unit \<Rightarrow> bool" where
  "WhiteSpace c \<longleftrightarrow>
     c \<in> set [0x0009, 0x000B, 0x000C, 0x0020, 0x00A0, 0x1680, 0x202F, 0x205F, 0x3000, 0xFEFF]
     \<or> (0x2000 \<le> c \<and> c \<le> 0x200A)"

definition LineTerminator :: "code_unit \<Rightarrow> bool" where
  "LineTerminator c \<longleftrightarrow> c \<in> set [0x000A, 0x000D, 0x2028, 0x2029]"

definition trimmable :: "code_unit \<Rightarrow> bool" where
  "trimmable c \<longleftrightarrow> WhiteSpace c \<or> LineTerminator c"

definition trim :: "jsstring \<Rightarrow> jsstring" where
  "trim s = rev (dropWhile trimmable (rev (dropWhile trimmable s)))"

section \<open>JSON values and \<^verbatim>\<open>JSON.stringify(value, null, 2)\<close>\<close>

text \<open>
  A value of a trace step is whatever the response body carried: a JSON value. An object is
  the list of its properties in the order the engine enumerates them. A number is carried
  as the text that \<^verbatim>\<open>Number.prototype.toString\<close> gives for it, which is how it is
  serialized; no floating-point arithmetic is modelled.
\<close>

datatype json =
    JNull
  | JBool bool
  | JNum jsstring
  | JStr jsstring
  | JArr "json list"
  | JObj "(jsstring \<times> json) list"

text \<open>The decimal numeral of a count (\<^verbatim>\<open>logs.length\<close>, \<^verbatim>\<open>idx + 1\<close>).\<close>

fun digits :: "nat \<Rightarrow> jsstring" where
  "digits n = (if n < 10 then [of_nat (48 + n)]
               else digits (n div 10) @ [of_nat (48 + n mod 10)])"

definition Number_toString :: "nat \<Rightarrow> jsstring" where
  "Number_toString n = digits n"

text \<open>
  \<open>QuoteJSONString\<close>: the two-character escapes, \<^verbatim>\<open>\uXXXX\<close> (lower-case hexadecimal) for
  the other control characters and for a surrogate without its partner, every other code
  unit as it is.
\<close>

definition hex_digit :: "nat \<Rightarrow> code_unit" where
  "hex_digit n = (if n < 10 then of_nat (48 + n) else of_nat (87 + n))"

definition UnicodeEscape :: "code_unit \<Rightarrow> jsstring" where
  "UnicodeEscape c =
     [0x5C, 0x75,
      hex_digit (unat c div 4096), hex_digit (unat c div 256 mod 16),
      hex_digit (unat c div 16 mod 16), hex_digit (unat c mod 16)]"

definition lead_surrogate :: "code_unit \<Rightarrow> bool" where
  "lead_surrogate c \<longleftrightarrow> 0xD800 \<le> c \<and> c \<le> 0xDBFF"

definition trail_surrogate :: "code_unit \<Rightarrow> bool" where
  "trail_surrogate c \<longleftrightarrow> 0xDC00 \<le> c \<and> c \<le> 0xDFFF"

definition quote_unit :: "code_unit \<Rightarrow> jsstring" where
  "quote_unit c =
     (if c = 0x08 then [0x5C, 0x62]
      else if c = 0x09 then [0x5C, 0x74]
      else if c = 0x0A then [0x5C, 0x6E]
      else if c = 0x0C then [0x5C, 0x66]
      else if c = 0x0D then [0x5C, 0x72]
      else if c = 0x22 then [0x5C, 0x22]
      else if c = 0x5C then [0x5C, 0x5C]
      else if c < 0x20 \<or> lead_surrogate c \<or> trail_surrogate c then UnicodeEscape c
      else [c])"

fun quote_units :: "jsstring \<Rightarrow> jsstring" where
  "quote_units [] = []"
| "quote_units [c] = quote_unit c"
| "quote_units (c # d # cs) =
     (if lead_surrogate c \<and> trail_surrogate d then c # d # quote_units cs
      else quote_unit c @ quote_units (d # cs))"

definition QuoteJSONString :: "jsstring \<Rightarrow> jsstring" where
  "QuoteJSONString s = [0x22] @ quote_units s @ [0x22]"

definition join :: "jsstring \<Rightarrow> jsstring list \<Rightarrow> jsstring" where
  "join sep parts =
     (case parts of [] \<Rightarrow> [] | p # rest \<Rightarrow> p @ concat (map (\<lambda>q. sep @ q) rest))"

text \<open>The gap of \<^verbatim>\<open>space = 2\<close> is two spaces; \<open>LF\<close> is the line feed between members.\<close>

definition gap :: jsstring where
  "gap = str ''  ''"

definition LF :: jsstring where
  "LF = [0x0A]"

text \<open>
  \<open>SerializeJSONProperty\<close> with \<open>SerializeJSONArray\<close> and \<open>SerializeJSONObject\<close> unfolded
  into it; the first argument is the current indent.
\<close>

fun SerializeJSONProperty :: "jsstring \<Rightarrow> json \<Rightarrow> jsstring"
  and serialize_elements :: "jsstring \<Rightarrow> json list \<Rightarrow> jsstring list"
  and serialize_members :: "jsstring \<Rightarrow> (jsstring \<times> json) list \<Rightarrow> jsstring list"
where
  "SerializeJSONProperty indent JNull = str ''null''"
| "SerializeJSONProperty indent (JBool b) = (if b then str ''true'' else str ''false'')"
| "SerializeJSONProperty indent (JNum n) = n"
| "SerializeJSONProperty indent (JStr s) = QuoteJSONString s"
| "SerializeJSONProperty indent (JArr xs) =
     (let stepback = indent; indent = indent @ gap;
          partial = serialize_elements indent xs
      in if partial = [] then str ''[]''
         else str ''['' @ LF @ indent @ join (str '','' @ LF @ indent) partial
              @ LF @ stepback @ str '']'')"
| "SerializeJSONProperty indent (JObj ps) =
     (let stepback = indent; indent = indent @ gap;
          partial = serialize_members indent ps
      in if partial = [] then str ''{}''
         else str ''{'' @ LF @ indent @ join (str '','' @ LF @ indent) partial
              @ LF @ stepback @ str ''}'')"
| "serialize_elements indent [] = []"
| "serialize_elements indent (x # xs) =
     SerializeJSONProperty indent x # serialize_elements indent xs"
| "serialize_members indent [] = []"
| "serialize_members indent ((k, v) # ps) =
     (QuoteJSONString k @ str '': '' @ SerializeJSONProperty indent v)
       # serialize_members indent ps"

definition JSON_stringify :: "json \<Rightarrow> jsstring" where
  "JSON_stringify v = SerializeJSONProperty [] v"

section \<open>Data model (types.ts, App.tsx)\<close>

text \<open>\<^verbatim>\<open>interface LogStep { step?: string; ...; [key: string]: any }\<close>: an open record.\<close>

type_synonym LogStep = "(jsstring \<times> json) list"

datatype Role = User | Assistant

text \<open>
  \<^verbatim>\<open>interface ChatMessage { role; content: string; logs?: LogStep[]; isLoading?: boolean }\<close>.
  \<open>None\<close> is JavaScript's \<^verbatim>\<open>undefined\<close>. The interface declares \<open>content\<close> a string, but
  \<open>handleSend\<close> copies \<^verbatim>\<open>data.response\<close> into it unchecked, so \<^verbatim>\<open>undefined\<close> can arrive there.
\<close>

record ChatMessage =
  role :: Role
  content :: "jsstring option"
  logs :: "LogStep list option"
  isLoading :: "bool option"

text \<open>
  \<^verbatim>\<open>interface ChatResponse { response: string; logs: LogStep[] }\<close> (api.ts) is what
  \<open>sendMessage\<close> promises; it returns \<^verbatim>\<open>response.data\<close> as it arrived, with no check.
  The two fields are therefore what reading \<^verbatim>\<open>data.response\<close> and \<^verbatim>\<open>data.logs\<close>
  gives: \<open>None\<close> when the body has no such property (\<open>data_logs\<close> stands for its
  \<open>logs\<close>). A body that is \<^verbatim>\<open>null\<close>, where the reads themselves throw, is a case of its
  own in \<open>settled\<close>.
\<close>

record ChatResponse =
  response :: "jsstring option"
  data_logs :: "LogStep list option"

text \<open>
  The promise of \<open>sendMessage\<close> settles: fulfilled with a body that the two reads accept,
  fulfilled with \<^verbatim>\<open>null\<close>, or rejected with an error.
\<close>

datatype 'e settled = Fulfilled ChatResponse | Fulfilled_null | Rejected 'e

text \<open>One \<^verbatim>\<open>axios.post(url, { message })\<close>.\<close>

record request =
  url :: jsstring
  message :: jsstring

text \<open>
  The page: the three \<^verbatim>\<open>useState\<close> cells of \<open>App\<close>; the \<^verbatim>\<open>useState\<close> cell of the
  \<open>LogViewer\<close> of each message, by the message's index (its React key); and the world around
  them: the requests posted so far, the number of \<open>handleSend\<close> invocations suspended at
  their \<^verbatim>\<open>await\<close>, and the errors written with \<^verbatim>\<open>console.error\<close>.
\<close>

record 'e page =
  input :: jsstring
  messages :: "ChatMessage list"
  isLoading :: bool
  isOpen :: "nat \<Rightarrow> bool"
  posted :: "request list"
  awaiting :: nat
  console :: "'e list"

definition page_init :: "'e page" where
  "page_init = \<lparr>input = [], messages = [], isLoading = False, isOpen = (\<lambda>idx. False),
                 posted = [], awaiting = 0, console = []\<rparr>"

section \<open>Conversation controller (App.tsx, api.ts)\<close>

definition setInput :: "jsstring \<Rightarrow> 'e page \<Rightarrow> 'e page" where
  "setInput v s = s\<lparr>input := v\<rparr>"

definition setMessages :: "(ChatMessage list \<Rightarrow> ChatMessage list) \<Rightarrow> 'e page \<Rightarrow> 'e page" where
  "setMessages f s = s\<lparr>messages := f (messages s)\<rparr>"

definition setIsLoading :: "bool \<Rightarrow> 'e page \<Rightarrow> 'e page" where
  "setIsLoading b s = s\<lparr>isLoading := b\<rparr>"

definition API_BASE_URL :: jsstring where
  "API_BASE_URL = str ''http://localhost:8000/api''"

text \<open>\<open>sendMessage\<close> up to its own \<^verbatim>\<open>await\<close>: one post, no loop around it.\<close>

definition sendMessage :: "jsstring \<Rightarrow> 'e page \<Rightarrow> 'e page" where
  "sendMessage msg s =
     s\<lparr>posted := posted s @ [\<lparr>url = API_BASE_URL @ str ''/chat'', message = msg\<rparr>]\<rparr>"

definition userMsg :: "jsstring \<Rightarrow> ChatMessage" where
  "userMsg txt = \<lparr>role = User, content = Some txt, logs = None, ChatMessage.isLoading = None\<rparr>"

definition placeholder :: ChatMessage where
  "placeholder = \<lparr>role = Assistant, content = Some [], logs = None,
                  ChatMessage.isLoading = Some True\<rparr>"

definition answer :: "ChatResponse \<Rightarrow> ChatMessage" where
  "answer d = \<lparr>role = Assistant, content = response d, logs = data_logs d,
               ChatMessage.isLoading = None\<rparr>"

definition error_text :: jsstring where
  "error_text = str ''Error: Failed to connect to Biomni backend.''"

definition error_msg :: ChatMessage where
  "error_msg = \<lparr>role = Assistant, content = Some error_text, logs = None,
                ChatMessage.isLoading = None\<rparr>"

text \<open>\<^verbatim>\<open>newMsgs.pop()\<close> on the copy of \<open>prev\<close>: drops the last element, and nothing of \<open>[]\<close>.\<close>

definition pop :: "'a list \<Rightarrow> 'a list" where
  "pop xs = butlast xs"

definition replace_last :: "ChatMessage \<Rightarrow> ChatMessage list \<Rightarrow> ChatMessage list" where
  "replace_last m prev = pop prev @ [m]"

text \<open>
  \<open>handleSend\<close> from its call to its \<^verbatim>\<open>await\<close>: the guard, the four state updates, the call
  of \<open>sendMessage\<close> with \<^verbatim>\<open>userMsg.content\<close>, and the suspension.
\<close>

definition handleSend :: "'e page \<Rightarrow> 'e page" where
  "handleSend s =
     (if trim (input s) = [] \<or> isLoading s then s
      else
        let txt = input s;
            s1 = setMessages (\<lambda>prev. prev @ [userMsg txt]) s;
            s2 = setInput [] s1;
            s3 = setIsLoading True s2;
            s4 = setMessages (\<lambda>prev. prev @ [placeholder]) s3;
            s5 = sendMessage txt s4
        in s5\<lparr>awaiting := awaiting s5 + 1\<rparr>)"

text \<open>
  In \<open>handleSend\<close> above the consts \<open>input\<close> and \<open>isLoading\<close> that the function reads are
  the cells themselves: the page has re-rendered since its last update. In general they are
  the consts of the render that created the handler, while the setters act on the cells as
  they are at the call. \<open>handleSend_from r s\<close> is the handler created by the render of
  page \<open>r\<close>, called when the cells are \<open>s\<close>.
\<close>

definition handleSend_from :: "'e page \<Rightarrow> 'e page \<Rightarrow> 'e page" where
  "handleSend_from r s =
     (if trim (input r) = [] \<or> isLoading r then s
      else
        let txt = input r;
            s1 = setMessages (\<lambda>prev. prev @ [userMsg txt]) s;
            s2 = setInput [] s1;
            s3 = setIsLoading True s2;
            s4 = setMessages (\<lambda>prev. prev @ [placeholder]) s3;
            s5 = sendMessage txt s4
        in s5\<lparr>awaiting := awaiting s5 + 1\<rparr>)"

text \<open>
  \<open>handleSend\<close> after the \<^verbatim>\<open>await\<close>: the rest of the \<^verbatim>\<open>try\<close> block when the promise was
  fulfilled, the \<^verbatim>\<open>catch\<close> block when it was rejected, and the \<^verbatim>\<open>finally\<close> block after either.
  The reads \<^verbatim>\<open>data.response\<close> and \<^verbatim>\<open>data.logs\<close> stand inside the updater passed to
  \<open>setMessages\<close>. For a \<^verbatim>\<open>null\<close> body they throw when React runs the updater, after the
  \<^verbatim>\<open>try\<close> block has been left: the \<^verbatim>\<open>catch\<close> block does not run, the messages stay as they
  are, and React unmounts \<open>App\<close> (see \<open>fire\<close>).
\<close>

definition try_rest :: "ChatResponse \<Rightarrow> 'e page \<Rightarrow> 'e page" where
  "try_rest d s = setMessages (replace_last (answer d)) s"

definition catch_block :: "'e \<Rightarrow> 'e page \<Rightarrow> 'e page" where
  "catch_block e s = setMessages (replace_last error_msg) (s\<lparr>console := console s @ [e]\<rparr>)"

definition finally_block :: "'e page \<Rightarrow> 'e page" where
  "finally_block s = setIsLoading False s"

definition settle_body :: "'e settled \<Rightarrow> 'e page \<Rightarrow> 'e page" where
  "settle_body r s =
     (case r of
        Fulfilled d \<Rightarrow> try_rest d s
      | Fulfilled_null \<Rightarrow> s
      | Rejected e \<Rightarrow> catch_block e s)"

definition handleSend_resume :: "'e settled \<Rightarrow> 'e page \<Rightarrow> 'e page" where
  "handleSend_resume r s =
     (let s' = finally_block (settle_body r s) in s'\<lparr>awaiting := awaiting s' - 1\<rparr>)"

text \<open>The pending flag of a message, as the page reads it (\<^verbatim>\<open>msg.isLoading ? ... : ...\<close>).\<close>

definition pending :: "ChatMessage \<Rightarrow> bool" where
  "pending m \<longleftrightarrow> ChatMessage.isLoading m = Some True"

section \<open>Log record renderer (components/LogViewer.tsx)\<close>

text \<open>What a component renders: elements with their children, icons and text; no styling.\<close>

datatype icon = Terminal | ChevronDown | ChevronRight

datatype vnode =
    Div "vnode list"
  | Button "vnode list"
  | Span "vnode list"
  | Pre "vnode list"
  | Icon icon
  | Text jsstring

text \<open>
  \<open>LogViewer\<close> with its prop \<open>logs\<close> (\<open>None\<close> when absent) and the value of its cell
  \<open>isOpen\<close>; \<open>None\<close> is the \<^verbatim>\<open>null\<close> it returns.
\<close>

definition step_block :: "nat \<Rightarrow> LogStep \<Rightarrow> vnode" where
  "step_block idx log =
     Div [Div [Text (str ''Step ''), Text (Number_toString (idx + 1))],
          Pre [Text (JSON_stringify (JObj log))]]"

definition LogViewer :: "LogStep list option \<Rightarrow> bool \<Rightarrow> vnode option" where
  "LogViewer logs_prop opn =
     (case logs_prop of
        None \<Rightarrow> None
      | Some ls \<Rightarrow>
          if length ls = 0 then None
          else Some (Div
            ([Button
                [Span [Icon Terminal, Text (str ''Biomni Process (''),
                       Text (Number_toString (length ls)), Text (str '' steps)'')],
                 Icon (if opn then ChevronDown else ChevronRight)]]
             @ (if opn
                then [Div (map (\<lambda>(idx, log). step_block idx log) (enumerate 0 ls))]
                else []))))"

text \<open>
  The button's \<^verbatim>\<open>onClick\<close>, \<^verbatim>\<open>() => setIsOpen(!isOpen)\<close>, of the viewer of message \<open>idx\<close>:
  \<open>isOpen\<close> is the const of the render \<open>r\<close> that created the handler, the setter acts on
  the cell.
\<close>

definition toggle :: "'e page \<Rightarrow> nat \<Rightarrow> 'e page \<Rightarrow> 'e page" where
  "toggle r idx s = s\<lparr>isOpen := (isOpen s)(idx := \<not> isOpen r idx)\<rparr>"

text \<open>
  What \<open>App\<close> renders under the bubble of message \<open>idx\<close>:
  \<^verbatim>\<open>msg.role === 'assistant' && !msg.isLoading && msg.logs && <LogViewer logs={msg.logs} />\<close>.
\<close>

definition trace_view :: "'e page \<Rightarrow> nat \<Rightarrow> vnode option" where
  "trace_view s idx =
     (if idx < length (messages s) then
        (let msg = messages s ! idx in
         if role msg = Assistant \<and> \<not> pending msg \<and> logs msg \<noteq> None
         then LogViewer (logs msg) (isOpen s idx) else None)
      else None)"

text \<open>Reading a rendering: its children, its buttons and its text, in document order.\<close>

fun children :: "vnode \<Rightarrow> vnode list" where
  "children (Div vs) = vs"
| "children (Button vs) = vs"
| "children (Span vs) = vs"
| "children (Pre vs) = vs"
| "children (Icon i) = []"
| "children (Text t) = []"

fun buttons :: "vnode \<Rightarrow> vnode list" where
  "buttons (Div vs) = concat (map buttons vs)"
| "buttons (Button vs) = Button vs # concat (map buttons vs)"
| "buttons (Span vs) = concat (map buttons vs)"
| "buttons (Pre vs) = concat (map buttons vs)"
| "buttons (Icon i) = []"
| "buttons (Text t) = []"

fun textContent :: "vnode \<Rightarrow> jsstring" where
  "textContent (Div vs) = concat (map textContent vs)"
| "textContent (Button vs) = concat (map textContent vs)"
| "textContent (Span vs) = concat (map textContent vs)"
| "textContent (Pre vs) = concat (map textContent vs)"
| "textContent (Icon i) = []"
| "textContent (Text t) = t"

section \<open>Events of the page\<close>

text \<open>
  The browser holds the page as React last rendered it, which is what the user sees and
  what the attached handlers close over, the cells as they are now, and whether \<open>App\<close> is
  still mounted.
\<close>

record 'e browser =
  rendered :: "'e page"
  current :: "'e page"
  mounted :: bool

definition browser_init :: "'e browser" where
  "browser_init = \<lparr>rendered = page_init, current = page_init, mounted = True\<rparr>"

text \<open>
  A \<open>LogViewer\<close> instance exists for message \<open>idx\<close> while \<open>App\<close> renders one there. When a
  re-render finds none, the instance is gone, and a later one starts from \<^verbatim>\<open>useState(false)\<close>
  again: committing a render resets the cells of the viewers that are not mounted.
\<close>

definition viewer_mounted :: "'e page \<Rightarrow> nat \<Rightarrow> bool" where
  "viewer_mounted s idx \<longleftrightarrow>
     idx < length (messages s) \<and> role (messages s ! idx) = Assistant
     \<and> \<not> pending (messages s ! idx) \<and> logs (messages s ! idx) \<noteq> None"

definition commit :: "'e page \<Rightarrow> 'e page" where
  "commit s = s\<lparr>isOpen := (\<lambda>idx. isOpen s idx \<and> viewer_mounted s idx)\<rparr>"

text \<open>
  What can happen: React re-renders, which brings the rendered page up to the cells; the
  input's \<^verbatim>\<open>onChange\<close>; the form's \<^verbatim>\<open>onSubmit\<close>, whose handler is the one of the last render;
  the settlement of a posted request, which resumes a suspended \<open>handleSend\<close>; and a click on
  the button of a rendered log viewer. Several events may be delivered before React
  re-renders. The input and the submit button are disabled at times; the events are allowed
  whenever \<open>App\<close> is mounted.
\<close>

datatype 'e event = Render | Change jsstring | Submit | Settle "'e settled" | Toggle nat

fun fire :: "'e event \<Rightarrow> 'e browser \<Rightarrow> 'e browser option" where
  "fire Render b =
     (if mounted b
      then Some (b\<lparr>rendered := commit (current b), current := commit (current b)\<rparr>)
      else None)"
| "fire (Change v) b =
     (if mounted b then Some (b\<lparr>current := setInput v (current b)\<rparr>) else None)"
| "fire Submit b =
     (if mounted b then Some (b\<lparr>current := handleSend_from (rendered b) (current b)\<rparr>)
      else None)"
| "fire (Settle r) b =
     (if mounted b \<and> awaiting (current b) \<noteq> 0
      then Some (b\<lparr>current := handleSend_resume r (current b),
                   mounted := (case r of Fulfilled_null \<Rightarrow> False | _ \<Rightarrow> True)\<rparr>)
      else None)"
| "fire (Toggle idx) b =
     (if mounted b \<and> trace_view (rendered b) idx \<noteq> None
      then Some (b\<lparr>current := toggle (rendered b) idx (current b)\<rparr>)
      else None)"

fun run :: "'e event list \<Rightarrow> 'e browser \<Rightarrow> 'e browser option" where
  "run [] b = Some b"
| "run (ev # evs) b = (case fire ev b of None \<Rightarrow> None | Some b' \<Rightarrow> run evs b')"

inductive reachable :: "'e browser \<Rightarrow> bool" where
  init: "reachable browser_init"
| step: "reachable b \<Longrightarrow> fire ev b = Some b' \<Longrightarrow> reachable b'"

fun is_Settle :: "'e event \<Rightarrow> bool" where
  "is_Settle (Settle r) = True"
| "is_Settle ev = False"

fun is_Toggle :: "'e event \<Rightarrow> bool" where
  "is_Toggle (Toggle idx) = True"
| "is_Toggle ev = False"

text \<open>
  The events after an accepted submit that leave its request alone: no settlement, and no
  submit before the page has re-rendered (a submit after the re-render meets the guard with
  \<open>isLoading\<close> set).
\<close>

fun quiet :: "'e event list \<Rightarrow> bool" where
  "quiet [] = True"
| "quiet (Render # evs) = list_all (\<lambda>ev. \<not> is_Settle ev) evs"
| "quiet (Submit # evs) = False"
| "quiet (Settle r # evs) = False"
| "quiet (Change v # evs) = quiet evs"
| "quiet (Toggle idx # evs) = quiet evs"

text \<open>One request for each user message, in order, carrying its content.\<close>

definition posted_inv :: "'e page \<Rightarrow> bool" where
  "posted_inv s \<longleftrightarrow>
     map (\<lambda>q. Some (message q)) (posted s)
       = map content (filter (\<lambda>m. role m = User) (messages s))
     \<and> (awaiting s \<noteq> 0 \<longrightarrow> messages s \<noteq> [])
     \<and> (messages s \<noteq> [] \<longrightarrow> role (last (messages s)) = Assistant)"

text \<open>
  The cells are ahead of the rendered page, a message that is not pending stays so, and a
  viewer is open only at a message that is not pending.
\<close>

definition viewer_inv :: "'e browser \<Rightarrow> bool" where
  "viewer_inv b \<longleftrightarrow>
     length (messages (rendered b)) \<le> length (messages (current b))
     \<and> (\<forall>i < length (messages (rendered b)).
           \<not> pending (messages (rendered b) ! i) \<longrightarrow> \<not> pending (messages (current b) ! i))
     \<and> (\<forall>i. isOpen (current b) i \<longrightarrow>
           i < length (messages (current b)) \<and> \<not> pending (messages (current b) ! i))"

text \<open>Everything of a page but the cells of its viewers.\<close>

definition conversation ::
  "'e page \<Rightarrow> jsstring \<times> ChatMessage list \<times> bool \<times> request list \<times> nat \<times> 'e list" where
  "conversation s = (input s, messages s, isLoading s, posted s, awaiting s, console s)"

definition same_conversation :: "'e browser \<Rightarrow> 'e browser \<Rightarrow> bool" where
  "same_conversation b b' \<longleftrightarrow>
     conversation (current b) = conversation (current b')
     \<and> conversation (rendered b) = conversation (rendered b')
     \<and> mounted b = mounted b'"

section \<open>Reading a JSON string literal\<close>

text \<open>
  How a reader of the displayed text (ECMA-404, \<^verbatim>\<open>JSON.parse\<close>) recovers a string from its
  literal: the escapes after a backslash, four hexadecimal digits after \<^verbatim>\<open>\u\<close>, no bare
  quote or control character.
\<close>

definition hex_value :: "code_unit \<Rightarrow> nat option" where
  "hex_value c =
     (if 0x30 \<le> c \<and> c \<le> 0x39 then Some (unat c - 48)
      else if 0x61 \<le> c \<and> c \<le> 0x66 then Some (unat c - 87)
      else if 0x41 \<le> c \<and> c \<le> 0x46 then Some (unat c - 55)
      else None)"

definition escaped :: "code_unit \<Rightarrow> code_unit option" where
  "escaped e =
     (if e = 0x62 then Some 0x08
      else if e = 0x74 then Some 0x09
      else if e = 0x6E then Some 0x0A
      else if e = 0x66 then Some 0x0C
      else if e = 0x72 then Some 0x0D
      else if e = 0x22 \<or> e = 0x5C \<or> e = 0x2F then Some e
      else None)"

fun hex4 :: "jsstring \<Rightarrow> code_unit option" where
  "hex4 [h1, h2, h3, h4] =
     (case (hex_value h1, hex_value h2, hex_value h3, hex_value h4) of
        (Some a, Some b, Some c, Some d) \<Rightarrow> Some (of_nat (4096 * a + 256 * b + 16 * c + d))
      | _ \<Rightarrow> None)"
| "hex4 hs = None"

function unescape :: "jsstring \<Rightarrow> jsstring option" where
  "unescape s =
     (case s of
        [] \<Rightarrow> Some []
      | c # cs \<Rightarrow>
          if c = 0x5C then
            (case cs of
               [] \<Rightarrow> None
             | e # rest \<Rightarrow>
                 if e = 0x75 then
                   (if length rest < 4 then None
                    else case hex4 (take 4 rest) of
                           None \<Rightarrow> None
                         | Some x \<Rightarrow> map_option ((#) x) (unescape (drop 4 rest)))
                 else case escaped e of
                        None \<Rightarrow> None
                      | Some x \<Rightarrow> map_option ((#) x) (unescape rest))
          else if c = 0x22 \<or> c < 0x20 then None
          else map_option ((#) c) (unescape cs))"
  by pat_completeness auto
termination
  by (relation "measure length") auto

definition JSON_parse_string :: "jsstring \<Rightarrow> jsstring option" where
  "JSON_parse_string s =
     (case s of
        [] \<Rightarrow> None
      | q # rest \<Rightarrow>
          if q = 0x22 \<and> rest \<noteq> [] \<and> last rest = 0x22 then unescape (butlast rest)
          else None)"

section \<open>The guard of \<open>handleSend\<close>\<close>

lemma trim_empty_iff: "trim s = [] \<longleftrightarrow> (\<forall>c \<in> set s. trimmable c)"
proof
  assume "trim s = []"
  then have all: "\<forall>c \<in> set (dropWhile trimmable s). trimmable c"
    by (simp add: trim_def)
  have "dropWhile trimmable s = []"
  proof (rule ccontr)
    assume ne: "dropWhile trimmable s \<noteq> []"
    then have "\<not> trimmable (hd (dropWhile trimmable s))"
      by (rule hd_dropWhile)
    moreover from ne have "hd (dropWhile trimmable s) \<in> set (dropWhile trimmable s)"
      by simp
    ultimately show False using all by blast
  qed
  then show "\<forall>c \<in> set s. trimmable c"
    by simp
next
  assume "\<forall>c \<in> set s. trimmable c"
  then show "trim s = []"
    by (auto simp: trim_def dest: set_dropWhileD)
qed

section \<open>Runs of the page\<close>

lemmas controller_defs =
  handleSend_def handleSend_from_def Let_def setMessages_def setInput_def setIsLoading_def
  sendMessage_def handleSend_resume_def finally_block_def settle_body_def try_rest_def
  catch_block_def replace_last_def pop_def toggle_def

lemma handleSend_from_same: "handleSend_from s s = handleSend s"
  by (simp add: handleSend_def handleSend_from_def)

lemma handleSend_loading: "isLoading s \<Longrightarrow> handleSend s = s"
  by (simp add: handleSend_def)

lemma handleSend_from_loading: "isLoading r \<Longrightarrow> handleSend_from r s = s"
  by (simp add: handleSend_from_def)

lemma pending_simps:
  "pending placeholder" "\<not> pending (userMsg t)" "\<not> pending (answer d)" "\<not> pending error_msg"
  by (simp_all add: pending_def placeholder_def userMsg_def answer_def error_msg_def)

lemma commit_simps:
  "input (commit s) = input s" "messages (commit s) = messages s"
  "isLoading (commit s) = isLoading s" "posted (commit s) = posted s"
  "awaiting (commit s) = awaiting s" "console (commit s) = console s"
  by (simp_all add: commit_def)

lemma commit_closed: "isOpen s = (\<lambda>idx. False) \<Longrightarrow> commit s = s"
  by (simp add: commit_def)

lemma run_reachable: "reachable b \<Longrightarrow> run evs b = Some b' \<Longrightarrow> reachable b'"
  by (induction evs arbitrary: b) (auto split: option.splits intro: reachable.step)

text \<open>The reachable states are the results of the runs from the initial page.\<close>

lemma run_append: "run (evs @ [ev]) b = (case run evs b of None \<Rightarrow> None | Some b' \<Rightarrow> fire ev b')"
  by (induction evs arbitrary: b) (auto split: option.splits)

lemma reachable_iff_run: "reachable b \<longleftrightarrow> (\<exists>evs. run evs browser_init = Some b)"
proof
  assume "reachable b"
  then show "\<exists>evs. run evs browser_init = Some b"
  proof (induction rule: reachable.induct)
    case init
    have "run [] browser_init = Some (browser_init :: 'a browser)" by simp
    then show ?case by blast
  next
    case (step b ev b')
    then obtain evs where "run evs browser_init = Some b" by blast
    with step(2) have "run (evs @ [ev]) browser_init = Some b'"
      by (simp add: run_append)
    then show ?case by blast
  qed
next
  assume "\<exists>evs. run evs browser_init = Some b"
  then show "reachable b"
    using run_reachable [OF reachable.init] by blast
qed

text \<open>While \<open>isLoading\<close> is set and rendered, nothing but a settlement touches the request.\<close>

lemma fire_loading:
  assumes "\<not> is_Settle ev" and "isLoading (rendered b)" and "isLoading (current b)"
    and "fire ev b = Some b'"
  shows "messages (current b') = messages (current b) \<and> isLoading (current b')
         \<and> isLoading (rendered b') \<and> awaiting (current b') = awaiting (current b)
         \<and> posted (current b') = posted (current b) \<and> console (current b') = console (current b)
         \<and> mounted b' = mounted b"
  using assms
  by (cases ev)
    (auto simp: handleSend_from_loading setInput_def toggle_def commit_simps split: if_splits)

lemma run_loading:
  assumes "list_all (\<lambda>ev. \<not> is_Settle ev) evs" and "isLoading (rendered b)"
    and "isLoading (current b)" and "run evs b = Some b'"
  shows "messages (current b') = messages (current b) \<and> isLoading (current b')
         \<and> awaiting (current b') = awaiting (current b)
         \<and> posted (current b') = posted (current b) \<and> console (current b') = console (current b)
         \<and> mounted b' = mounted b"
  using assms
proof (induction evs arbitrary: b)
  case Nil
  then show ?case by simp
next
  case (Cons ev evs)
  from Cons.prems obtain b1 where f: "fire ev b = Some b1" and r: "run evs b1 = Some b'"
    by (auto split: option.splits)
  from Cons.prems have ns: "\<not> is_Settle ev" and rest: "list_all (\<lambda>ev. \<not> is_Settle ev) evs"
    by simp_all
  from fire_loading [OF ns Cons.prems(2,3) f] Cons.IH [OF rest _ _ r]
  show ?case by simp
qed

lemma run_quiet:
  assumes "quiet evs" and "isLoading (current b)" and "run evs b = Some b'"
  shows "messages (current b') = messages (current b) \<and> isLoading (current b')
         \<and> awaiting (current b') = awaiting (current b)
         \<and> posted (current b') = posted (current b) \<and> console (current b') = console (current b)
         \<and> mounted b' = mounted b"
  using assms
proof (induction evs arbitrary: b)
  case Nil
  then show ?case by simp
next
  case (Cons ev evs)
  from Cons.prems obtain b1 where f: "fire ev b = Some b1" and r: "run evs b1 = Some b'"
    by (auto split: option.splits)
  show ?case
  proof (cases ev)
    case Render
    with f have b1: "b1 = b\<lparr>rendered := commit (current b), current := commit (current b)\<rparr>"
      by (auto split: if_splits)
    from Render Cons.prems(1) have "list_all (\<lambda>ev. \<not> is_Settle ev) evs" by simp
    from run_loading [OF this _ _ r] b1 Cons.prems(2) show ?thesis
      by (simp add: commit_simps)
  next
    case (Change v)
    with f have b1: "b1 = b\<lparr>current := setInput v (current b)\<rparr>"
      by (auto split: if_splits)
    from Change Cons.prems(1) have "quiet evs" by simp
    from Cons.IH [OF this _ r] b1 Cons.prems(2) show ?thesis
      by (simp add: setInput_def)
  next
    case Submit
    with Cons.prems(1) show ?thesis by simp
  next
    case (Settle x)
    with Cons.prems(1) show ?thesis by simp
  next
    case (Toggle idx)
    with f have b1: "b1 = b\<lparr>current := toggle (rendered b) idx (current b)\<rparr>"
      by (auto split: if_splits)
    from Toggle Cons.prems(1) have "quiet evs" by simp
    from Cons.IH [OF this _ r] b1 Cons.prems(2) show ?thesis
      by (simp add: toggle_def)
  qed
qed

lemma in_flight:
  assumes "trim (input (rendered b0)) \<noteq> []" and "\<not> isLoading (rendered b0)"
    and "fire Submit b0 = Some b1" and "quiet evs" and "run evs b1 = Some b"
  shows "messages (current b1)
           = messages (current b0) @ [userMsg (input (rendered b0)), placeholder]
         \<and> messages (current b) = messages (current b1) \<and> isLoading (current b)
         \<and> awaiting (current b) = awaiting (current b0) + 1
         \<and> posted (current b) = posted (current b0)
              @ [\<lparr>url = API_BASE_URL @ str ''/chat'', message = input (rendered b0)\<rparr>]
         \<and> console (current b) = console (current b0) \<and> mounted b"
proof -
  from assms(3) have m: "mounted b0"
    and b1: "b1 = b0\<lparr>current := handleSend_from (rendered b0) (current b0)\<rparr>"
    by (auto split: if_splits)
  from assms(1,2) b1 have h: "messages (current b1)
           = messages (current b0) @ [userMsg (input (rendered b0)), placeholder]
      \<and> isLoading (current b1) \<and> awaiting (current b1) = awaiting (current b0) + 1
      \<and> posted (current b1) = posted (current b0)
           @ [\<lparr>url = API_BASE_URL @ str ''/chat'', message = input (rendered b0)\<rparr>]
      \<and> console (current b1) = console (current b0)"
    by (simp add: controller_defs)
  from b1 m have "mounted b1" by simp
  with h run_quiet [OF assms(4) _ assms(5)] show ?thesis by simp
qed

text \<open>One request for each user message.\<close>

lemma user_messages_replace_last:
  assumes "xs \<noteq> []" and "role (last xs) = Assistant" and "role m = Assistant"
  shows "filter (\<lambda>m. role m = User) (replace_last m xs) = filter (\<lambda>m. role m = User) xs"
proof -
  from assms(1) have "xs = butlast xs @ [last xs]" by simp
  then have "filter (\<lambda>m. role m = User) xs
      = filter (\<lambda>m. role m = User) (butlast xs) @ filter (\<lambda>m. role m = User) [last xs]"
    by (metis filter_append)
  with assms(2,3) show ?thesis by (simp add: replace_last_def pop_def)
qed

lemma posted_inv_handleSend_from: "posted_inv s \<Longrightarrow> posted_inv (handleSend_from r s)"
  by (auto simp: posted_inv_def controller_defs userMsg_def placeholder_def)

lemma posted_inv_resume:
  assumes "posted_inv s" and "awaiting s \<noteq> 0"
  shows "posted_inv (handleSend_resume r s)"
proof -
  from assms have ne: "messages s \<noteq> []" and l: "role (last (messages s)) = Assistant"
    by (simp_all add: posted_inv_def)
  have "filter (\<lambda>m. role m = User) (messages (handleSend_resume r s))
          = filter (\<lambda>m. role m = User) (messages s)
        \<and> posted (handleSend_resume r s) = posted s
        \<and> messages (handleSend_resume r s) \<noteq> []
        \<and> role (last (messages (handleSend_resume r s))) = Assistant"
    using user_messages_replace_last [OF ne l, of "answer d" for d]
      user_messages_replace_last [OF ne l, of error_msg] ne l
    by (cases r; simp add: handleSend_resume_def finally_block_def settle_body_def try_rest_def
        catch_block_def setMessages_def setIsLoading_def Let_def answer_def error_msg_def
        replace_last_def)
  with assms(1) show ?thesis by (simp add: posted_inv_def)
qed

lemma posted_inv_fire:
  assumes "posted_inv (current b)" and "fire ev b = Some b'"
  shows "posted_inv (current b')"
proof (cases ev)
  case Render
  with assms show ?thesis by (auto simp: posted_inv_def commit_simps split: if_splits)
next
  case (Change v)
  with assms show ?thesis by (auto simp: posted_inv_def setInput_def split: if_splits)
next
  case Submit
  with assms show ?thesis by (auto simp: posted_inv_handleSend_from split: if_splits)
next
  case (Settle r)
  with assms show ?thesis by (auto simp: posted_inv_resume split: if_splits)
next
  case (Toggle idx)
  with assms show ?thesis by (auto simp: posted_inv_def toggle_def split: if_splits)
qed

lemma reachable_posted_inv: "reachable b \<Longrightarrow> posted_inv (current b)"
proof (induction rule: reachable.induct)
  case init
  show ?case by (simp add: posted_inv_def browser_init_def page_init_def)
next
  case (step b ev b')
  then show ?case using posted_inv_fire by blast
qed

text \<open>The run of the examples: a question is typed, rendered and sent.\<close>

lemma trim_nonempty_test: "trim (str ''test'') \<noteq> []"
  by (simp add: trim_empty_iff str_def trimmable_def WhiteSpace_def LineTerminator_def)

lemma sent_test:
  "handleSend (setInput (str ''test'') page_init) =
     \<lparr>input = [], messages = [userMsg (str ''test''), placeholder], isLoading = True,
      isOpen = (\<lambda>idx. False),
      posted = [\<lparr>url = API_BASE_URL @ str ''/chat'', message = str ''test''\<rparr>],
      awaiting = 1, console = []\<rparr>"
  using trim_nonempty_test by (simp add: controller_defs page_init_def)

lemma asked_test:
  "run [Change (str ''test''), Render] browser_init =
     Some \<lparr>rendered = setInput (str ''test'') page_init,
           current = setInput (str ''test'') page_init, mounted = True\<rparr>"
  by (simp add: browser_init_def commit_closed setInput_def page_init_def)

lemma submit_test:
  "fire Submit \<lparr>rendered = setInput (str ''test'') page_init,
                current = setInput (str ''test'') page_init, mounted = True\<rparr> =
     Some \<lparr>rendered = setInput (str ''test'') page_init,
           current = handleSend (setInput (str ''test'') page_init), mounted = True\<rparr>"
  by (simp add: handleSend_from_same)

lemma reachable_asked_test:
  "reachable \<lparr>rendered = setInput (str ''test'') page_init,
              current = setInput (str ''test'') page_init, mounted = True\<rparr>"
  using asked_test reachable_iff_run by blast

lemma reachable_sent_test:
  "reachable \<lparr>rendered = setInput (str ''test'') page_init,
              current = handleSend (setInput (str ''test'') page_init), mounted = True\<rparr>"
  using reachable.step [OF reachable_asked_test submit_test] .

section \<open>The rendering of a trace\<close>

lemma sublist_concat_member: "x \<in> set xs \<Longrightarrow> sublist x (concat xs)"
proof (induction xs)
  case Nil
  then show ?case by simp
next
  case (Cons y ys)
  show ?case
  proof (cases "x = y")
    case True
    then show ?thesis by simp
  next
    case False
    with Cons have "sublist x (concat ys)" by simp
    then obtain ps ss where "concat ys = ps @ x @ ss"
      by (auto simp: sublist_def)
    then have "concat (y # ys) = (y @ ps) @ x @ ss" by simp
    then show ?thesis unfolding sublist_def by blast
  qed
qed

lemma sublist_trans_append: "sublist x y \<Longrightarrow> sublist x (p @ y @ q)"
proof -
  assume "sublist x y"
  then obtain ps ss where "y = ps @ x @ ss" by (auto simp: sublist_def)
  then have "p @ y @ q = (p @ ps) @ x @ (ss @ q)" by simp
  then show ?thesis unfolding sublist_def by blast
qed

lemma sublist_join: "p \<in> set parts \<Longrightarrow> sublist p (join sep parts)"
proof (cases parts)
  case Nil
  assume "p \<in> set parts"
  with Nil show ?thesis by simp
next
  case (Cons q rest)
  assume m: "p \<in> set parts"
  show ?thesis
  proof (cases "p = q")
    case True
    with Cons show ?thesis by (simp add: join_def)
  next
    case False
    with m Cons have "sep @ p \<in> set (map (\<lambda>q. sep @ q) rest)" by auto
    then have "sublist (sep @ p) (concat (map (\<lambda>q. sep @ q) rest))"
      by (rule sublist_concat_member)
    then have "sublist p (concat (map (\<lambda>q. sep @ q) rest))"
      by (metis sublist_append_leftI sublist_order.order_trans)
    then have "sublist p (q @ concat (map (\<lambda>q. sep @ q) rest) @ [])"
      by (rule sublist_trans_append)
    with Cons show ?thesis by (simp add: join_def)
  qed
qed

lemma serialize_members_map:
  "serialize_members indent ps =
     map (\<lambda>(k, v). QuoteJSONString k @ str '': '' @ SerializeJSONProperty indent v) ps"
  by (induction ps) auto

lemma serialize_elements_map:
  "serialize_elements indent xs = map (SerializeJSONProperty indent) xs"
  by (induction xs) auto

lemma quote_units_plain: "\<forall>c \<in> set k. quote_unit c = [c] \<Longrightarrow> quote_units k = k"
proof (induction k rule: quote_units.induct)
  case 1
  show ?case by simp
next
  case (2 c)
  then show ?case by simp
next
  case (3 c d cs)
  from 3(3) have c: "quote_unit c = [c]" by simp
  have "\<not> lead_surrogate c"
  proof
    assume "lead_surrogate c"
    then have "quote_unit c = UnicodeEscape c"
      by (auto simp: quote_unit_def lead_surrogate_def)
    with c show False by (simp add: UnicodeEscape_def)
  qed
  with 3 c show ?case by simp
qed

lemma stringify_member:
  assumes "(k, v) \<in> set log"
  shows "sublist (QuoteJSONString k @ str '': '' @ SerializeJSONProperty gap v)
           (JSON_stringify (JObj log))"
proof -
  let ?m = "QuoteJSONString k @ str '': '' @ SerializeJSONProperty gap v"
  from assms have "?m \<in> set (serialize_members gap log)"
    by (force simp: serialize_members_map)
  then have j: "sublist ?m (join (str '','' @ LF @ gap) (serialize_members gap log))"
    by (rule sublist_join)
  from assms have ne: "serialize_members gap log \<noteq> []"
    by (auto simp: serialize_members_map)
  have "JSON_stringify (JObj log) =
      (str ''{'' @ LF @ gap) @ join (str '','' @ LF @ gap) (serialize_members gap log)
        @ (LF @ str ''}'')"
    using ne by (simp add: JSON_stringify_def Let_def)
  with sublist_trans_append [OF j, of "str ''{'' @ LF @ gap" "LF @ str ''}''"]
  show ?thesis by simp
qed

lemma buttons_step_block: "buttons (step_block idx log) = []"
  by (simp add: step_block_def)

lemma textContent_step_block:
  "textContent (step_block idx log) =
     str ''Step '' @ Number_toString (idx + 1) @ JSON_stringify (JObj log)"
  by (simp add: step_block_def)

lemma blocks_nth:
  "i < length ls \<Longrightarrow>
     map (\<lambda>(idx, log). step_block idx log) (enumerate 0 ls) ! i = step_block i (ls ! i)"
  by (simp add: nth_enumerate_eq)

lemma LogViewer_expanded:
  assumes "ls \<noteq> []"
  shows "LogViewer (Some ls) True =
     Some (Div [Button [Span [Icon Terminal, Text (str ''Biomni Process (''),
                              Text (Number_toString (length ls)), Text (str '' steps)'')],
                        Icon ChevronDown],
                Div (map (\<lambda>(idx, log). step_block idx log) (enumerate 0 ls))])"
  using assms by (simp add: LogViewer_def)

lemma LogViewer_collapsed:
  assumes "ls \<noteq> []"
  shows "LogViewer (Some ls) False =
     Some (Div [Button [Span [Icon Terminal, Text (str ''Biomni Process (''),
                              Text (Number_toString (length ls)), Text (str '' steps)'')],
                        Icon ChevronRight]])"
  using assms by (simp add: LogViewer_def)

lemma LogViewer_None_iff: "LogViewer l b = None \<longleftrightarrow> l = None \<or> l = Some []"
  by (cases l) (auto simp: LogViewer_def)

lemma trace_view_None_iff:
  "trace_view s idx = None \<longleftrightarrow>
     \<not> (idx < length (messages s) \<and> role (messages s ! idx) = Assistant
        \<and> \<not> pending (messages s ! idx) \<and> logs (messages s ! idx) \<noteq> None
        \<and> logs (messages s ! idx) \<noteq> Some [])"
  by (auto simp: trace_view_def Let_def LogViewer_None_iff)


text \<open>A viewer is open only at a message that is not pending.\<close>

lemma replace_last_keeps:
  assumes "\<not> pending m"
  shows "length xs \<le> length (replace_last m xs)
         \<and> (\<forall>i < length xs. \<not> pending (xs ! i) \<longrightarrow> \<not> pending (replace_last m xs ! i))"
proof (cases "xs = []")
  case True
  then show ?thesis by simp
next
  case False
  then have sp: "xs = butlast xs @ [last xs]" by simp
  have "replace_last m xs = xs[length xs - 1 := m]"
    by (subst (2) sp) (simp add: replace_last_def pop_def list_update_append)
  with assms show ?thesis by (simp add: nth_list_update)
qed

lemma resume_keeps:
  "length (messages s) \<le> length (messages (handleSend_resume r s))
   \<and> (\<forall>i < length (messages s).
         \<not> pending (messages s ! i) \<longrightarrow> \<not> pending (messages (handleSend_resume r s) ! i))
   \<and> isOpen (handleSend_resume r s) = isOpen s"
  using replace_last_keeps [of "answer d" "messages s" for d]
    replace_last_keeps [of error_msg "messages s"]
  by (cases r)
    (simp_all add: handleSend_resume_def finally_block_def settle_body_def try_rest_def
      catch_block_def setMessages_def setIsLoading_def Let_def pending_simps)

lemma handleSend_from_keeps:
  "length (messages s) \<le> length (messages (handleSend_from r s))
   \<and> (\<forall>i < length (messages s). messages (handleSend_from r s) ! i = messages s ! i)
   \<and> isOpen (handleSend_from r s) = isOpen s"
  by (simp add: controller_defs nth_append)

lemma viewer_inv_fire:
  assumes "viewer_inv b" and "fire ev b = Some b'"
  shows "viewer_inv b'"
proof (cases ev)
  case Render
  with assms show ?thesis
    by (auto simp: viewer_inv_def commit_def split: if_splits)
next
  case (Change v)
  with assms show ?thesis
    by (auto simp: viewer_inv_def setInput_def split: if_splits)
next
  case Submit
  with assms(2) have b': "b' = b\<lparr>current := handleSend_from (rendered b) (current b)\<rparr>"
    by (auto split: if_splits)
  from handleSend_from_keeps [of "current b" "rendered b"] assms(1) show ?thesis
    unfolding b' viewer_inv_def by (simp, metis less_le_trans)
next
  case (Settle r)
  with assms(2) have b': "rendered b' = rendered b"
    "current b' = handleSend_resume r (current b)"
    by (auto split: if_splits)
  from resume_keeps [of "current b" r] assms(1) show ?thesis
    unfolding viewer_inv_def b' by (simp, metis less_le_trans)
next
  case (Toggle idx)
  with assms(2) have v: "trace_view (rendered b) idx \<noteq> None"
    and b': "b' = b\<lparr>current := toggle (rendered b) idx (current b)\<rparr>"
    by (auto split: if_splits)
  from v have "idx < length (messages (rendered b))"
    and "\<not> pending (messages (rendered b) ! idx)"
    by (simp_all add: trace_view_None_iff)
  with assms(1) have "idx < length (messages (current b))"
    and "\<not> pending (messages (current b) ! idx)"
    by (auto simp: viewer_inv_def)
  with assms(1) show ?thesis
    unfolding b' viewer_inv_def by (simp add: toggle_def)
qed

lemma reachable_viewer_inv: "reachable b \<Longrightarrow> viewer_inv b"
proof (induction rule: reachable.induct)
  case init
  show ?case by (simp add: viewer_inv_def browser_init_def page_init_def)
next
  case (step b ev b')
  then show ?case using viewer_inv_fire by blast
qed

lemma fresh_viewer_collapsed:
  assumes "reachable b" and "messages (current b) \<noteq> []"
    and "pending (last (messages (current b)))" and "fire (Settle r) b = Some b'"
  shows "\<not> isOpen (current b') (length (messages (current b')) - 1)"
proof -
  from assms(1) have v: "viewer_inv b" by (rule reachable_viewer_inv)
  from assms(4) have b': "current b' = handleSend_resume r (current b)"
    by (auto split: if_splits)
  from assms(2) have sp: "messages (current b) = butlast (messages (current b)) @ [last (messages (current b))]"
    by simp
  have len: "length (messages (current b')) = length (messages (current b))"
    using assms(2) unfolding b' by (cases r) (simp_all add: controller_defs)
  from assms(2,3) have "pending (messages (current b) ! (length (messages (current b)) - 1))"
    by (simp add: last_conv_nth)
  with v have "\<not> isOpen (current b) (length (messages (current b)) - 1)"
    by (auto simp: viewer_inv_def)
  with len resume_keeps [of "current b" r] show ?thesis
    unfolding b' by simp
qed

lemma buttons_blocks:
  "concat (map buttons (map (\<lambda>(idx, log). step_block idx log) (enumerate n ls))) = []"
  by (induction ls arbitrary: n) (auto simp: buttons_step_block)


text \<open>A key is read back from its quoted form.\<close>

lemma hex_value_hex_digit: "n < 16 \<Longrightarrow> hex_value (hex_digit n) = Some n"
proof -
  assume "n < 16"
  then have "n \<in> {0, 1, 2, 3, 4, 5, 6, 7, 8, 9, 10, 11, 12, 13, 14, 15}"
    by (simp, arith)
  then show ?thesis
    by (elim insertE emptyE) (simp_all add: hex_value_def hex_digit_def)
qed

lemma hex_sum:
  "4096 * (n div 4096) + 256 * (n div 256 mod 16) + 16 * (n div 16 mod 16) + n mod 16 = (n::nat)"
proof -
  define x y z r0 r1 r2
    where "x = n div 16" and "y = n div 256" and "z = n div 4096"
      and "r0 = n mod 16" and "r1 = n div 16 mod 16" and "r2 = n div 256 mod 16"
  have d: "n div 16 div 16 = n div 256" "n div 256 div 16 = n div 4096"
    by (simp_all add: div_mult2_eq [symmetric])
  have "n = 16 * x + r0"
    by (simp add: x_def r0_def)
  moreover have "x = 16 * y + r1"
    unfolding x_def y_def r1_def d(1) [symmetric] by simp
  moreover have "y = 16 * z + r2"
    unfolding y_def z_def r2_def d(2) [symmetric] by simp
  ultimately have "4096 * z + 256 * r2 + 16 * r1 + r0 = n"
    by linarith
  then show ?thesis
    by (simp only: x_def y_def z_def r0_def r1_def r2_def)
qed

lemma hex4_UnicodeEscape:
  "UnicodeEscape c = [0x5C, 0x75, h1, h2, h3, h4] \<Longrightarrow> hex4 [h1, h2, h3, h4] = Some c"
proof -
  assume u: "UnicodeEscape c = [0x5C, 0x75, h1, h2, h3, h4]"
  have lt: "unat c < 65536"
    using unsigned_less [of c, where 'a = nat] by simp
  then have d: "unat c div 4096 < 16" "unat c div 256 mod 16 < 16"
    "unat c div 16 mod 16 < 16" "unat c mod 16 < 16"
    by simp_all
  from u have h: "h1 = hex_digit (unat c div 4096)" "h2 = hex_digit (unat c div 256 mod 16)"
    "h3 = hex_digit (unat c div 16 mod 16)" "h4 = hex_digit (unat c mod 16)"
    by (simp_all add: UnicodeEscape_def)
  have "hex4 [h1, h2, h3, h4] = Some (of_nat
      (4096 * (unat c div 4096) + 256 * (unat c div 256 mod 16)
        + 16 * (unat c div 16 mod 16) + unat c mod 16))"
    by (simp only: h hex4.simps hex_value_hex_digit [OF d(1)] hex_value_hex_digit [OF d(2)]
        hex_value_hex_digit [OF d(3)] hex_value_hex_digit [OF d(4)] prod.case option.case)
  then show ?thesis
    by (simp only: hex_sum of_nat_unat) simp
qed


declare unescape.simps [simp del]

lemma unescape_Nil: "unescape [] = Some []"
  by (simp add: unescape.simps)

lemma unescape_plain:
  "c \<noteq> 0x5C \<Longrightarrow> c \<noteq> 0x22 \<Longrightarrow> \<not> c < 0x20 \<Longrightarrow>
     unescape (c # cs) = map_option ((#) c) (unescape cs)"
  by (subst unescape.simps) simp

lemma unescape_escaped:
  "escaped e = Some x \<Longrightarrow> e \<noteq> 0x75 \<Longrightarrow>
     unescape (0x5C # e # rest) = map_option ((#) x) (unescape rest)"
  by (subst unescape.simps) simp

lemma unescape_hex:
  "hex4 [h1, h2, h3, h4] = Some x \<Longrightarrow>
     unescape (0x5C # 0x75 # h1 # h2 # h3 # h4 # rest) = map_option ((#) x) (unescape rest)"
  by (subst unescape.simps) simp

lemma unescape_UnicodeEscape:
  "unescape (UnicodeEscape c @ rest) = map_option ((#) c) (unescape rest)"
proof -
  obtain h1 h2 h3 h4 where u: "UnicodeEscape c = [0x5C, 0x75, h1, h2, h3, h4]"
    by (simp add: UnicodeEscape_def)
  from hex4_UnicodeEscape [OF u] show ?thesis
    by (simp add: u unescape_hex)
qed

lemma surrogate_plain:
  assumes "lead_surrogate c \<or> trail_surrogate c"
  shows "c \<noteq> 0x5C" and "c \<noteq> 0x22" and "\<not> c < 0x20"
  using assms
  by (auto simp: lead_surrogate_def trail_surrogate_def word_le_nat_alt word_less_nat_alt)

lemma unescape_quote_unit:
  "unescape (quote_unit c @ rest) = map_option ((#) c) (unescape rest)"
proof -
  consider "c = 0x08" | "c = 0x09" | "c = 0x0A" | "c = 0x0C" | "c = 0x0D" | "c = 0x22"
    | "c = 0x5C"
    | "c \<notin> {0x08, 0x09, 0x0A, 0x0C, 0x0D, 0x22, 0x5C}"
        "c < 0x20 \<or> lead_surrogate c \<or> trail_surrogate c"
    | "c \<notin> {0x08, 0x09, 0x0A, 0x0C, 0x0D, 0x22, 0x5C}"
        "\<not> (c < 0x20 \<or> lead_surrogate c \<or> trail_surrogate c)"
    by auto
  then show ?thesis
  proof cases
    case 8
    then have "quote_unit c = UnicodeEscape c"
      by (simp add: quote_unit_def)
    then show ?thesis by (simp add: unescape_UnicodeEscape)
  next
    case 9
    then have "quote_unit c = [c]"
      by (simp add: quote_unit_def)
    with 9 show ?thesis by (simp add: unescape_plain)
  qed (simp_all add: quote_unit_def unescape_escaped escaped_def)
qed

lemma unescape_quote_units: "unescape (quote_units s) = Some s"
proof (induction s rule: quote_units.induct)
  case 1
  show ?case by (simp add: unescape_Nil)
next
  case (2 c)
  from unescape_quote_unit [of c "[]"] show ?case
    by (simp add: unescape_Nil)
next
  case (3 c d cs)
  show ?case
  proof (cases "lead_surrogate c \<and> trail_surrogate d")
    case True
    then have q: "quote_units (c # d # cs) = c # d # quote_units cs"
      by simp
    from True 3(1) have "unescape (quote_units cs) = Some cs"
      by simp
    with True surrogate_plain [of c] surrogate_plain [of d] show ?thesis
      unfolding q by (simp add: unescape_plain)
  next
    case False
    then have q: "quote_units (c # d # cs) = quote_unit c @ quote_units (d # cs)"
      by (simp only: quote_units.simps if_False)
    from False 3(2) have "unescape (quote_units (d # cs)) = Some (d # cs)"
      by blast
    then show ?thesis
      unfolding q by (simp add: unescape_quote_unit)
  qed
qed

lemma JSON_parse_string_Quote: "JSON_parse_string (QuoteJSONString k) = Some k"
  by (simp add: JSON_parse_string_def QuoteJSONString_def unescape_quote_units)

section \<open>Clicks on a viewer and the conversation\<close>

lemma conversation_handleSend_from:
  "conversation r = conversation r' \<Longrightarrow> conversation s = conversation s' \<Longrightarrow>
     conversation (handleSend_from r s) = conversation (handleSend_from r' s')"
  by (simp add: conversation_def controller_defs)

lemma conversation_resume:
  "conversation s = conversation s' \<Longrightarrow>
     conversation (handleSend_resume x s) = conversation (handleSend_resume x s')"
  by (cases x) (simp_all add: conversation_def controller_defs)

lemma conversation_toggle: "conversation (toggle r idx s) = conversation s"
  by (simp add: conversation_def toggle_def)

lemma fire_same_conversation:
  assumes "same_conversation b c" and "\<not> is_Toggle ev" and "fire ev b = Some b'"
  shows "\<exists>c'. fire ev c = Some c' \<and> same_conversation b' c'"
proof (cases ev)
  case Render
  with assms show ?thesis
    by (auto simp: same_conversation_def conversation_def commit_simps split: if_splits)
next
  case (Change v)
  with assms show ?thesis
    by (auto simp: same_conversation_def conversation_def setInput_def split: if_splits)
next
  case Submit
  with assms(3) have m: "mounted b"
    and b': "b' = b\<lparr>current := handleSend_from (rendered b) (current b)\<rparr>"
    by (auto split: if_splits)
  from assms(1) m have "fire Submit c = Some (c\<lparr>current := handleSend_from (rendered c) (current c)\<rparr>)"
    by (simp add: same_conversation_def)
  moreover from assms(1) have "same_conversation b' (c\<lparr>current := handleSend_from (rendered c) (current c)\<rparr>)"
    unfolding b' by (auto simp: same_conversation_def intro: conversation_handleSend_from)
  ultimately show ?thesis using Submit by blast
next
  case (Settle x)
  with assms(3) have m: "mounted b" and a: "awaiting (current b) \<noteq> 0"
    and b': "b' = b\<lparr>current := handleSend_resume x (current b),
                     mounted := (case x of Fulfilled_null \<Rightarrow> False | _ \<Rightarrow> True)\<rparr>"
    by (auto split: if_splits)
  let ?c' = "c\<lparr>current := handleSend_resume x (current c),
                 mounted := (case x of Fulfilled_null \<Rightarrow> False | _ \<Rightarrow> True)\<rparr>"
  from assms(1) m a have "fire (Settle x) c = Some ?c'"
    by (auto simp: same_conversation_def conversation_def)
  moreover from assms(1) have "same_conversation b' ?c'"
    unfolding b' by (auto simp: same_conversation_def intro: conversation_resume)
  ultimately show ?thesis using Settle by blast
next
  case (Toggle idx)
  with assms(2) show ?thesis by simp
qed

lemma fire_Toggle_same_conversation:
  "fire (Toggle idx) b = Some b' \<Longrightarrow> same_conversation b' b"
  by (auto simp: same_conversation_def conversation_toggle split: if_splits)

lemma same_conversation_trans:
  "same_conversation a b \<Longrightarrow> same_conversation b c \<Longrightarrow> same_conversation a c"
  by (simp add: same_conversation_def)

lemma run_without_toggles:
  assumes "same_conversation b c" and "run evs b = Some b'"
  shows "\<exists>c'. run (filter (\<lambda>ev. \<not> is_Toggle ev) evs) c = Some c' \<and> same_conversation b' c'"
  using assms
proof (induction evs arbitrary: b c)
  case Nil
  then show ?case by simp
next
  case (Cons ev evs)
  from Cons.prems(2) obtain b1 where f: "fire ev b = Some b1" and r: "run evs b1 = Some b'"
    by (auto split: option.splits)
  show ?case
  proof (cases "is_Toggle ev")
    case True
    then obtain idx where ev: "ev = Toggle idx" by (cases ev) auto
    from f ev have "same_conversation b1 b"
      by (simp add: fire_Toggle_same_conversation)
    from this Cons.prems(1) have "same_conversation b1 c"
      by (rule same_conversation_trans)
    from Cons.IH [OF this r] True show ?thesis by simp
  next
    case False
    from fire_same_conversation [OF Cons.prems(1) False f]
    obtain c1 where fc: "fire ev c = Some c1" and s: "same_conversation b1 c1"
      by blast
    from Cons.IH [OF s r] False fc show ?thesis by simp
  qed
qed

lemma same_conversation_refl: "same_conversation b b"
  by (simp add: same_conversation_def)

lemma fire_keeps_isOpen:
  "\<not> is_Toggle ev \<Longrightarrow> ev \<noteq> Render \<Longrightarrow> fire ev b = Some b' \<Longrightarrow>
     isOpen (current b') = isOpen (current b)"
  using resume_keeps [of "current b"]
  by (cases ev) (auto simp: setInput_def handleSend_from_keeps split: if_splits)

lemma commit_commit: "commit (commit s) = commit s"
  by (simp add: commit_def viewer_mounted_def)

section \<open>Claims on the controller\<close>

text \<open>
  C1: when the input is not empty after trimming and no request is in flight, the
  synchronous part of \<open>handleSend\<close> (all that runs before the backend call can settle) appends
  exactly two messages, the user message carrying the submitted text and then the pending
  assistant message with empty content, clears the input and sets \<open>isLoading\<close>; the call is
  then suspended at its \<^verbatim>\<open>await\<close>.
\<close>

theorem handleSend_accepts:
  assumes "trim (input s) \<noteq> []" and "\<not> isLoading s"
  shows "messages (handleSend s) =
           messages s @ [\<lparr>role = User, content = Some (input s), logs = None,
                           ChatMessage.isLoading = None\<rparr>,
                         \<lparr>role = Assistant, content = Some [], logs = None,
                           ChatMessage.isLoading = Some True\<rparr>]
       \<and> length (messages (handleSend s)) = length (messages s) + 2
       \<and> input (handleSend s) = []
       \<and> isLoading (handleSend s)
       \<and> awaiting (handleSend s) = awaiting s + 1"
  using assms
  by (simp add: handleSend_def Let_def setMessages_def setInput_def setIsLoading_def
      sendMessage_def userMsg_def placeholder_def)

theorem handleSend_accepts_witness:
  "messages (handleSend (page_init\<lparr>input := str ''What is CRISPR?''\<rparr> :: unit page)) =
     [\<lparr>role = User, content = Some (str ''What is CRISPR?''), logs = None,
       ChatMessage.isLoading = None\<rparr>,
      \<lparr>role = Assistant, content = Some [], logs = None, ChatMessage.isLoading = Some True\<rparr>]
   \<and> input (handleSend (page_init\<lparr>input := str ''What is CRISPR?''\<rparr> :: unit page)) = []
   \<and> isLoading (handleSend (page_init\<lparr>input := str ''What is CRISPR?''\<rparr> :: unit page))"
proof -
  let ?s = "page_init\<lparr>input := str ''What is CRISPR?''\<rparr> :: unit page"
  have t: "trim (input ?s) \<noteq> []"
    by (simp add: trim_empty_iff str_def trimmable_def WhiteSpace_def LineTerminator_def)
  have l: "\<not> isLoading ?s"
    by (simp add: page_init_def)
  show ?thesis
    using handleSend_accepts [OF t l] by (simp add: page_init_def)
qed



text \<open>
  C3: a submit is accepted, and whatever is typed, toggled, re-rendered or submitted after
  the re-render while its request is in flight, when the request is fulfilled with \<open>d\<close> the
  placeholder is replaced where it stands (the second of the two appended messages) by the
  assistant message with content \<^verbatim>\<open>data.response\<close> and logs \<^verbatim>\<open>data.logs\<close> and no pending
  flag; the conversation is as long as it was right after the two messages were appended;
  the replacement is made while \<open>isLoading\<close> still holds, and \<open>isLoading\<close> is false afterwards.
\<close>

theorem fulfilled_replaces_placeholder:
  assumes "trim (input (rendered b0)) \<noteq> []" and "\<not> isLoading (rendered b0)"
    and "fire Submit b0 = Some b1" and "quiet evs" and "run evs b1 = Some b"
  shows "messages (current b1) =
           messages (current b0) @ [\<lparr>role = User, content = Some (input (rendered b0)),
                                      logs = None, ChatMessage.isLoading = None\<rparr>,
                                    \<lparr>role = Assistant, content = Some [], logs = None,
                                      ChatMessage.isLoading = Some True\<rparr>]
       \<and> messages (handleSend_resume (Fulfilled d) (current b)) =
           (messages (current b1))[length (messages (current b0)) + 1 :=
              \<lparr>role = Assistant, content = response d, logs = data_logs d,
               ChatMessage.isLoading = None\<rparr>]
       \<and> pending (messages (current b1) ! (length (messages (current b0)) + 1))
       \<and> \<not> pending (messages (handleSend_resume (Fulfilled d) (current b))
                      ! (length (messages (current b0)) + 1))
       \<and> length (messages (handleSend_resume (Fulfilled d) (current b)))
           = length (messages (current b1))
       \<and> messages (try_rest d (current b))
           = messages (handleSend_resume (Fulfilled d) (current b))
       \<and> isLoading (try_rest d (current b))
       \<and> \<not> isLoading (handleSend_resume (Fulfilled d) (current b))
       \<and> fire (Settle (Fulfilled d)) b
           = Some (b\<lparr>current := handleSend_resume (Fulfilled d) (current b)\<rparr>)"
proof -
  from in_flight [OF assms]
  have h: "messages (current b1)
             = messages (current b0) @ [userMsg (input (rendered b0)), placeholder]"
    and m: "messages (current b) = messages (current b1)"
    and l: "isLoading (current b)" and a: "awaiting (current b) = awaiting (current b0) + 1"
    and mo: "mounted b"
    by simp_all
  from mo a have "fire (Settle (Fulfilled d)) b
           = Some (b\<lparr>current := handleSend_resume (Fulfilled d) (current b)\<rparr>)"
    by simp
  then show ?thesis
    using m l h
    by (simp add: controller_defs answer_def pending_def placeholder_def userMsg_def nth_append
        list_update_append butlast_append)
qed

theorem fulfilled_replaces_placeholder_witness:
  "map_option (\<lambda>b. messages (handleSend_resume
       (Fulfilled \<lparr>response = Some (str ''CRISPR is...''),
                   data_logs = Some [[(str ''step'', JStr (str ''search'')),
                                      (str ''tool'', JStr (str ''pubmed''))]]\<rparr>)
       (current b)))
     (run [Change (str ''test''), Render, Submit, Change (str ''x''), Render, Submit]
        (browser_init :: unit browser))
   = Some
     [\<lparr>role = User, content = Some (str ''test''), logs = None, ChatMessage.isLoading = None\<rparr>,
      \<lparr>role = Assistant, content = Some (str ''CRISPR is...''),
       logs = Some [[(str ''step'', JStr (str ''search'')), (str ''tool'', JStr (str ''pubmed''))]],
       ChatMessage.isLoading = None\<rparr>]"
proof -
  let ?asked = "\<lparr>rendered = setInput (str ''test'') page_init,
              current = setInput (str ''test'') page_init, mounted = True\<rparr> :: unit browser"
  let ?sent = "\<lparr>rendered = setInput (str ''test'') page_init,
              current = handleSend (setInput (str ''test'') page_init),
              mounted = True\<rparr> :: unit browser"
  let ?page = "setInput (str ''x'') (handleSend (setInput (str ''test'') page_init)) :: unit page"
  let ?busy = "\<lparr>rendered = ?page, current = ?page, mounted = True\<rparr> :: unit browser"
  let ?more = "[Change (str ''x''), Render, Submit] :: unit event list"
  have t: "trim (input (rendered ?asked)) \<noteq> []"
    using trim_nonempty_test by (simp add: setInput_def)
  have l: "\<not> isLoading (rendered ?asked)"
    by (simp add: setInput_def page_init_def)
  have q: "quiet ?more" by simp
  have ld: "isLoading ?page"
    by (simp add: sent_test) (simp add: setInput_def)
  have op: "isOpen ?page = (\<lambda>idx. False)"
    by (simp add: sent_test) (simp add: setInput_def)
  have r: "run ?more ?sent = Some ?busy"
    using ld by (simp add: handleSend_from_loading commit_closed [OF op])
  have whole: "run [Change (str ''test''), Render, Submit, Change (str ''x''), Render, Submit]
        (browser_init :: unit browser) = Some ?busy"
    using asked_test [where 'a = unit] submit_test [where 'a = unit] r ld
    by (simp add: browser_init_def handleSend_from_loading commit_closed [OF op])
  from fulfilled_replaces_placeholder [OF t l submit_test q r]
  have "messages (handleSend_resume
       (Fulfilled \<lparr>response = Some (str ''CRISPR is...''),
                   data_logs = Some [[(str ''step'', JStr (str ''search'')),
                                      (str ''tool'', JStr (str ''pubmed''))]]\<rparr>)
       (current ?busy))
     = [\<lparr>role = User, content = Some (str ''test''), logs = None, ChatMessage.isLoading = None\<rparr>,
      \<lparr>role = Assistant, content = Some (str ''CRISPR is...''),
       logs = Some [[(str ''step'', JStr (str ''search'')), (str ''tool'', JStr (str ''pubmed''))]],
       ChatMessage.isLoading = None\<rparr>]"
    by (simp add: sent_test userMsg_def)
  then show ?thesis
    unfolding whole by simp
qed

text \<open>
  C4, as stated, fails for a shape failure: a body without the fields \<open>response\<close> and
  \<open>logs\<close> fulfils the promise, nothing checks it, and the placeholder is replaced by a
  message whose content is \<^verbatim>\<open>undefined\<close>, not by the error text.
\<close>

theorem shape_failure_counterexample:
  "last (messages (handleSend_resume (Fulfilled \<lparr>response = None, data_logs = None\<rparr>)
      (handleSend (setInput (str ''test'') (page_init :: unit page)))))
   = \<lparr>role = Assistant, content = None, logs = None, ChatMessage.isLoading = None\<rparr>
   \<and> content (last (messages (handleSend_resume (Fulfilled \<lparr>response = None, data_logs = None\<rparr>)
      (handleSend (setInput (str ''test'') (page_init :: unit page))))))
     \<noteq> Some (str ''Error: Failed to connect to Biomni backend.'')"
  by (simp add: sent_test) (simp add: controller_defs answer_def)

text \<open>
  C4, amended: for every failure that rejects the backend call, whatever its cause, the
  placeholder is replaced where it stands by the assistant message with the one fixed error
  text, no logs and no pending flag, and \<open>isLoading\<close> is false afterwards, so that a next
  non-blank input is accepted at once; two rejections differ in nothing but the error
  written to the console.
\<close>

theorem rejected_shows_error:
  assumes "trim (input (rendered b0)) \<noteq> []" and "\<not> isLoading (rendered b0)"
    and "fire Submit b0 = Some b1" and "quiet evs" and "run evs b1 = Some b"
  shows "messages (handleSend_resume (Rejected e) (current b)) =
           (messages (current b1))[length (messages (current b0)) + 1 :=
              \<lparr>role = Assistant,
               content = Some (str ''Error: Failed to connect to Biomni backend.''),
               logs = None, ChatMessage.isLoading = None\<rparr>]
       \<and> pending (messages (current b1) ! (length (messages (current b0)) + 1))
       \<and> length (messages (handleSend_resume (Rejected e) (current b)))
           = length (messages (current b1))
       \<and> \<not> isLoading (handleSend_resume (Rejected e) (current b))
       \<and> handleSend_resume (Rejected e') (current b)
           = (handleSend_resume (Rejected e) (current b))\<lparr>console := console (current b) @ [e']\<rparr>
       \<and> (trim txt \<noteq> [] \<longrightarrow>
            messages (handleSend (setInput txt (handleSend_resume (Rejected e) (current b))))
              = messages (handleSend_resume (Rejected e) (current b)) @ [userMsg txt, placeholder])
       \<and> fire (Settle (Rejected e)) b
           = Some (b\<lparr>current := handleSend_resume (Rejected e) (current b)\<rparr>)"
proof -
  from in_flight [OF assms]
  have h: "messages (current b1)
             = messages (current b0) @ [userMsg (input (rendered b0)), placeholder]"
    and m: "messages (current b) = messages (current b1)"
    and l: "isLoading (current b)" and a: "awaiting (current b) = awaiting (current b0) + 1"
    and mo: "mounted b"
    by simp_all
  from mo a have "fire (Settle (Rejected e)) b
           = Some (b\<lparr>current := handleSend_resume (Rejected e) (current b)\<rparr>)"
    by simp
  then show ?thesis
    using m l h
    by (simp add: controller_defs error_msg_def error_text_def pending_def placeholder_def
        nth_append list_update_append butlast_append)
qed

theorem rejected_shows_error_witness:
  "map_option (\<lambda>b. messages (handleSend_resume (Rejected (404 :: nat)) (current b)))
     (run [Change (str ''test''), Render, Submit, Change (str ''x''), Render, Submit]
        browser_init)
   = Some
     [\<lparr>role = User, content = Some (str ''test''), logs = None, ChatMessage.isLoading = None\<rparr>,
      \<lparr>role = Assistant, content = Some (str ''Error: Failed to connect to Biomni backend.''),
       logs = None, ChatMessage.isLoading = None\<rparr>]
   \<and> map_option (\<lambda>b. isLoading (handleSend_resume (Rejected (404 :: nat)) (current b)))
     (run [Change (str ''test''), Render, Submit, Change (str ''x''), Render, Submit]
        browser_init)
   = Some False
   \<and> map_option (\<lambda>b. length (messages (handleSend (setInput (str ''test'')
        (handleSend_resume (Rejected (404 :: nat)) (current b))))))
     (run [Change (str ''test''), Render, Submit, Change (str ''x''), Render, Submit]
        browser_init)
   = Some 4"
proof -
  let ?asked = "\<lparr>rendered = setInput (str ''test'') page_init,
              current = setInput (str ''test'') page_init, mounted = True\<rparr> :: nat browser"
  let ?sent = "\<lparr>rendered = setInput (str ''test'') page_init,
              current = handleSend (setInput (str ''test'') page_init),
              mounted = True\<rparr> :: nat browser"
  let ?page = "setInput (str ''x'') (handleSend (setInput (str ''test'') page_init)) :: nat page"
  let ?busy = "\<lparr>rendered = ?page, current = ?page, mounted = True\<rparr> :: nat browser"
  let ?more = "[Change (str ''x''), Render, Submit] :: nat event list"
  have t: "trim (input (rendered ?asked)) \<noteq> []"
    using trim_nonempty_test by (simp add: setInput_def)
  have l: "\<not> isLoading (rendered ?asked)"
    by (simp add: setInput_def page_init_def)
  have q: "quiet ?more" by simp
  have ld: "isLoading ?page"
    by (simp add: sent_test) (simp add: setInput_def)
  have op: "isOpen ?page = (\<lambda>idx. False)"
    by (simp add: sent_test) (simp add: setInput_def)
  have r: "run ?more ?sent = Some ?busy"
    using ld by (simp add: handleSend_from_loading commit_closed [OF op])
  have whole: "run [Change (str ''test''), Render, Submit, Change (str ''x''), Render, Submit]
        (browser_init :: nat browser) = Some ?busy"
    using asked_test [where 'a = nat] submit_test [where 'a = nat] r ld
    by (simp add: browser_init_def handleSend_from_loading commit_closed [OF op])
  from rejected_shows_error [OF t l submit_test q r, of 404 0 "str ''test''"]
    trim_nonempty_test
  have "messages (handleSend_resume (Rejected (404 :: nat)) (current ?busy))
     = [\<lparr>role = User, content = Some (str ''test''), logs = None, ChatMessage.isLoading = None\<rparr>,
      \<lparr>role = Assistant, content = Some (str ''Error: Failed to connect to Biomni backend.''),
       logs = None, ChatMessage.isLoading = None\<rparr>]
     \<and> \<not> isLoading (handleSend_resume (Rejected (404 :: nat)) (current ?busy))
     \<and> length (messages (handleSend (setInput (str ''test'')
          (handleSend_resume (Rejected (404 :: nat)) (current ?busy))))) = 4"
    by (simp add: sent_test userMsg_def) (simp add: setInput_def page_init_def)
  then show ?thesis
    unfolding whole by simp
qed

text \<open>
  C5 fails on the code. The guard of \<open>handleSend\<close> reads the \<open>isLoading\<close> of the render that
  created the handler: a second submit delivered before React re-renders passes it, and the
  conversation holds two pending messages. The first settlement then replaces the last one
  and resets \<open>isLoading\<close> while the other is still pending; the second settlement replaces
  the same position again, and the first placeholder stays pending for good. Also, a request
  fulfilled with \<^verbatim>\<open>null\<close> never resolves its placeholder.
\<close>

theorem two_submits_leave_pending:
  "map_option (\<lambda>b. (map pending (messages (current b)), isLoading (current b)))
     (run [Change (str ''test''), Render, Submit, Submit] (browser_init :: unit browser))
   = Some ([False, True, False, True], True)
   \<and> map_option (\<lambda>b. (map pending (messages (current b)), isLoading (current b)))
     (run [Change (str ''test''), Render, Submit, Submit, Settle (Rejected ())]
        (browser_init :: unit browser))
   = Some ([False, True, False, False], False)
   \<and> map_option (\<lambda>b. (map pending (messages (current b)), isLoading (current b)))
     (run [Change (str ''test''), Render, Submit, Submit, Settle (Rejected ()),
           Settle (Rejected ())] (browser_init :: unit browser))
   = Some ([False, True, False, False], False)
   \<and> map_option (\<lambda>b. (map pending (messages (current b)), isLoading (current b), mounted b))
     (run [Change (str ''test''), Render, Submit, Settle Fulfilled_null]
        (browser_init :: unit browser))
   = Some ([False, True], False, False)"
  using trim_nonempty_test
  by (simp add: browser_init_def page_init_def controller_defs pending_simps commit_def)

section \<open>Claims on the renderer\<close>

text \<open>
  C6: \<open>LogViewer\<close> renders nothing when \<open>logs\<close> is absent or empty. For a non-empty \<open>logs\<close>
  it renders one element that holds exactly one button, whose text carries the number of
  steps; collapsed, it holds nothing else; expanded, it holds one block for each step, in
  order, block \<open>i\<close> headed \<open>Step i + 1\<close> and showing the step's serialization. Every
  viewer's cell starts as false, and the viewer of an answer that has just replaced a
  placeholder is collapsed.
\<close>

theorem LogViewer_present:
  "LogViewer None opn = None \<and> LogViewer (Some []) opn = None
   \<and> (ls \<noteq> [] \<longrightarrow>
        (\<exists>control rest.
            LogViewer (Some ls) opn = Some (Div (control # rest))
          \<and> buttons (Div (control # rest)) = [control]
          \<and> textContent control =
              str ''Biomni Process ('' @ Number_toString (length ls) @ str '' steps)''
          \<and> (\<not> opn \<longrightarrow> rest = [])
          \<and> (opn \<longrightarrow>
               (\<exists>blocks. rest = [Div blocks] \<and> length blocks = length ls
                 \<and> (\<forall>i < length ls.
                       blocks ! i =
                         Div [Div [Text (str ''Step ''), Text (Number_toString (i + 1))],
                              Pre [Text (JSON_stringify (JObj (ls ! i)))]])))))
   \<and> \<not> isOpen page_init idx
   \<and> (reachable b \<and> messages (current b) \<noteq> [] \<and> pending (last (messages (current b)))
        \<and> fire (Settle r) b = Some b' \<longrightarrow>
        \<not> isOpen (current b') (length (messages (current b')) - 1))"
proof -
  have none: "LogViewer None opn = None \<and> LogViewer (Some []) opn = None"
    by (simp add: LogViewer_def)
  have some: "\<exists>control rest.
            LogViewer (Some ls) opn = Some (Div (control # rest))
          \<and> buttons (Div (control # rest)) = [control]
          \<and> textContent control =
              str ''Biomni Process ('' @ Number_toString (length ls) @ str '' steps)''
          \<and> (\<not> opn \<longrightarrow> rest = [])
          \<and> (opn \<longrightarrow>
               (\<exists>blocks. rest = [Div blocks] \<and> length blocks = length ls
                 \<and> (\<forall>i < length ls.
                       blocks ! i =
                         Div [Div [Text (str ''Step ''), Text (Number_toString (i + 1))],
                              Pre [Text (JSON_stringify (JObj (ls ! i)))]])))"
    if ne: "ls \<noteq> []"
  proof (cases opn)
    case True
    let ?blocks = "map (\<lambda>(idx, log). step_block idx log) (enumerate 0 ls)"
    have "\<forall>i < length ls. ?blocks ! i =
        Div [Div [Text (str ''Step ''), Text (Number_toString (i + 1))],
             Pre [Text (JSON_stringify (JObj (ls ! i)))]]"
      by (simp add: nth_enumerate_eq step_block_def)
    moreover have "length ?blocks = length ls" by simp
    ultimately show ?thesis
      using True LogViewer_expanded [OF ne] buttons_blocks [of 0 ls]
      by (intro exI conjI) (assumption | simp)+
  next
    case False
    then show ?thesis
      using LogViewer_collapsed [OF ne] by simp
  qed
  have init: "\<not> isOpen page_init idx"
    by (simp add: page_init_def)
  from none some init fresh_viewer_collapsed show ?thesis by blast
qed

theorem LogViewer_present_witness:
  "textContent (hd (buttons (the (LogViewer
      (Some [[(str ''step'', JStr (str ''search''))], [(str ''tool'', JStr (str ''pubmed''))]])
      False)))) = str ''Biomni Process (2 steps)''
   \<and> children (the (LogViewer
      (Some [[(str ''step'', JStr (str ''search''))], [(str ''tool'', JStr (str ''pubmed''))]])
      False)) = buttons (the (LogViewer
      (Some [[(str ''step'', JStr (str ''search''))], [(str ''tool'', JStr (str ''pubmed''))]])
      False))
   \<and> map textContent (children (children (the (LogViewer
      (Some [[(str ''step'', JStr (str ''search''))], [(str ''tool'', JStr (str ''pubmed''))]])
      True)) ! 1))
     = [str ''Step 1'' @ JSON_stringify (JObj [(str ''step'', JStr (str ''search''))]),
        str ''Step 2'' @ JSON_stringify (JObj [(str ''tool'', JStr (str ''pubmed''))])]
   \<and> \<not> isOpen (handleSend_resume
        (Fulfilled \<lparr>response = Some (str ''CRISPR is...''),
                    data_logs = Some [[(str ''step'', JStr (str ''search''))]]\<rparr>)
        (handleSend (setInput (str ''test'') (page_init :: unit page)))) 1"
proof -
  let ?ls = "[[(str ''step'', JStr (str ''search''))], [(str ''tool'', JStr (str ''pubmed''))]]"
  let ?d = "\<lparr>response = Some (str ''CRISPR is...''),
             data_logs = Some [[(str ''step'', JStr (str ''search''))]]\<rparr>"
  let ?page = "handleSend (setInput (str ''test'') (page_init :: unit page))"
  let ?sent = "\<lparr>rendered = setInput (str ''test'') page_init, current = ?page,
                mounted = True\<rparr> :: unit browser"
  let ?done = "?sent\<lparr>current := handleSend_resume (Fulfilled ?d) ?page\<rparr>"
  have ne: "?ls \<noteq> []" by simp
  have f: "fire (Settle (Fulfilled ?d)) ?sent = Some ?done"
    by (simp add: sent_test)
  have p: "messages (current ?sent) \<noteq> [] \<and> pending (last (messages (current ?sent)))"
    by (simp add: sent_test pending_simps)
  have n: "length (messages (current ?done)) - 1 = 1"
    by (simp add: sent_test) (simp add: controller_defs)
  have d: "Number_toString 2 = str ''2''" "Number_toString (Suc (Suc 0)) = str ''2''"
    "Number_toString (Suc 0) = str ''1''"
    by (simp_all add: Number_toString_def str_def)
  from LogViewer_present [where opn = False and ls = ?ls and b = ?sent
      and r = "Fulfilled ?d" and b' = ?done]
    ne reachable_sent_test f p
  have "\<not> isOpen (current ?done) (length (messages (current ?done)) - 1)"
    by blast
  with n have o: "\<not> isOpen (handleSend_resume (Fulfilled ?d) ?page) 1"
    by simp
  from LogViewer_present [where opn = False and ls = ?ls, THEN conjunct2, THEN conjunct2,
      THEN conjunct1] ne
  obtain control where c: "LogViewer (Some ?ls) False = Some (Div [control])"
    and b: "buttons (Div [control]) = [control]"
    and t: "textContent control = str ''Biomni Process ('' @ Number_toString (length ?ls) @ str '' steps)''"
    by auto
  from LogViewer_present [where opn = True and ls = ?ls, THEN conjunct2, THEN conjunct2,
      THEN conjunct1] ne
  obtain control' blocks where c': "LogViewer (Some ?ls) True = Some (Div [control', Div blocks])"
    and l: "length blocks = 2"
    and b0: "blocks ! 0 = Div [Div [Text (str ''Step ''), Text (Number_toString (0 + 1))],
                              Pre [Text (JSON_stringify (JObj (?ls ! 0)))]]"
    and b1: "blocks ! Suc 0 = Div [Div [Text (str ''Step ''), Text (Number_toString (1 + 1))],
                              Pre [Text (JSON_stringify (JObj (?ls ! 1)))]]"
    by auto
  from l have bl: "blocks = [blocks ! 0, blocks ! Suc 0]"
    by (cases blocks; cases "tl blocks") auto
  have m: "map textContent blocks
     = [str ''Step 1'' @ JSON_stringify (JObj [(str ''step'', JStr (str ''search''))]),
        str ''Step 2'' @ JSON_stringify (JObj [(str ''tool'', JStr (str ''pubmed''))])]"
    by (subst bl) (simp add: b0 b1 d, simp add: str_def)
  from b have b': "buttons control = [control]" by simp
  show ?thesis
    using c b' t o c' m d by (simp add: str_def)
qed

text \<open>
  C7: every key of a step, whatever it is, is in the text of the step's block of the expanded
  viewer: the block shows \<^verbatim>\<open>JSON.stringify(log, null, 2)\<close>, which holds, for each property
  of the record, the quoted key, a colon and a space, and the serialization of its value.
  A key of characters that need no escape is quoted as it is, between double quotes, and
  every key, whatever its characters, is read back from its quoted form.
\<close>

theorem step_block_shows_every_key:
  assumes "idx < length ls" and "(k, v) \<in> set (ls ! idx)"
  shows "\<exists>control blocks.
           LogViewer (Some ls) True = Some (Div [control, Div blocks])
         \<and> length blocks = length ls
         \<and> textContent (blocks ! idx) =
             str ''Step '' @ Number_toString (idx + 1) @ JSON_stringify (JObj (ls ! idx))
         \<and> sublist (QuoteJSONString k @ str '': '' @ SerializeJSONProperty gap v)
             (JSON_stringify (JObj (ls ! idx)))
         \<and> sublist (QuoteJSONString k @ str '': '' @ SerializeJSONProperty gap v)
             (textContent (blocks ! idx))
         \<and> ((\<forall>c \<in> set k. quote_unit c = [c]) \<longrightarrow>
               QuoteJSONString k = [0x22] @ k @ [0x22])
         \<and> JSON_parse_string (QuoteJSONString k) = Some k"
proof -
  from assms(1) have ne: "ls \<noteq> []" by auto
  let ?blocks = "map (\<lambda>(idx, log). step_block idx log) (enumerate 0 ls)"
  let ?m = "QuoteJSONString k @ str '': '' @ SerializeJSONProperty gap v"
  have b: "?blocks ! idx = step_block idx (ls ! idx)"
    using assms(1) by (rule blocks_nth)
  have s: "sublist ?m (JSON_stringify (JObj (ls ! idx)))"
    using assms(2) by (rule stringify_member)
  have "sublist ?m ((str ''Step '' @ Number_toString (idx + 1))
          @ JSON_stringify (JObj (ls ! idx)) @ [])"
    using s by (rule sublist_trans_append)
  then have t: "sublist ?m (textContent (?blocks ! idx))"
    by (simp add: b textContent_step_block)
  have q: "(\<forall>c \<in> set k. quote_unit c = [c]) \<longrightarrow> QuoteJSONString k = [0x22] @ k @ [0x22]"
    by (simp add: QuoteJSONString_def quote_units_plain)
  have "length ?blocks = length ls" by simp
  with LogViewer_expanded [OF ne] b s t q textContent_step_block
    JSON_parse_string_Quote [of k]
  show ?thesis
    by (metis (no_types, lifting))
qed

theorem step_block_shows_every_key_witness:
  "sublist ([0x22] @ str ''tool'' @ [0x22] @ str '': '' @ [0x22] @ str ''pubmed'' @ [0x22])
     (JSON_stringify (JObj [(str ''step'', JStr (str ''search'')),
                            (str ''tool'', JStr (str ''pubmed''))]))
   \<and> JSON_stringify (JObj [(str ''step'', JStr (str ''search'')),
                            (str ''tool'', JStr (str ''pubmed''))])
     = str ''{'' @ LF @ gap @ [0x22] @ str ''step'' @ [0x22] @ str '': ''
         @ [0x22] @ str ''search'' @ [0x22] @ str '','' @ LF
         @ gap @ [0x22] @ str ''tool'' @ [0x22] @ str '': ''
         @ [0x22] @ str ''pubmed'' @ [0x22] @ LF @ str ''}''
   \<and> sublist ([0x22, 0x61, 0x5C, 0x6E, 0x5C, 0x22, 0x22] @ str '': null'')
       (JSON_stringify (JObj [([0x61, 0x0A, 0x22], JNull)]))
   \<and> JSON_parse_string [0x22, 0x61, 0x5C, 0x6E, 0x5C, 0x22, 0x22] = Some [0x61, 0x0A, 0x22]"
proof -
  let ?log = "[(str ''step'', JStr (str ''search'')), (str ''tool'', JStr (str ''pubmed''))]"
  have i: "0 < length [?log]" by simp
  have k: "(str ''tool'', JStr (str ''pubmed'')) \<in> set ([?log] ! 0)" by simp
  have q: "QuoteJSONString (str ''tool'') = [0x22] @ str ''tool'' @ [0x22]"
      "QuoteJSONString (str ''pubmed'') = [0x22] @ str ''pubmed'' @ [0x22]"
      "QuoteJSONString (str ''step'') = [0x22] @ str ''step'' @ [0x22]"
      "QuoteJSONString (str ''search'') = [0x22] @ str ''search'' @ [0x22]"
    by (simp_all add: QuoteJSONString_def str_def quote_unit_def lead_surrogate_def
        trail_surrogate_def)
  have plain: "\<forall>c \<in> set (str ''tool''). quote_unit c = [c]"
    by (simp add: str_def quote_unit_def lead_surrogate_def trail_surrogate_def)
  from step_block_shows_every_key [OF i k] plain
  have "sublist (QuoteJSONString (str ''tool'') @ str '': ''
                  @ SerializeJSONProperty gap (JStr (str ''pubmed'')))
          (JSON_stringify (JObj ?log))
        \<and> QuoteJSONString (str ''tool'') = [0x22] @ str ''tool'' @ [0x22]"
    by auto
  moreover have "JSON_stringify (JObj ?log)
     = str ''{'' @ LF @ gap @ [0x22] @ str ''step'' @ [0x22] @ str '': ''
         @ [0x22] @ str ''search'' @ [0x22] @ str '','' @ LF
         @ gap @ [0x22] @ str ''tool'' @ [0x22] @ str '': ''
         @ [0x22] @ str ''pubmed'' @ [0x22] @ LF @ str ''}''"
    by (simp add: JSON_stringify_def Let_def join_def q)
  moreover have "sublist ([0x22, 0x61, 0x5C, 0x6E, 0x5C, 0x22, 0x22] @ str '': null'')
       (JSON_stringify (JObj [([0x61, 0x0A, 0x22], JNull)]))
     \<and> JSON_parse_string [0x22, 0x61, 0x5C, 0x6E, 0x5C, 0x22, 0x22] = Some [0x61, 0x0A, 0x22]"
  proof -
    have i': "0 < length [[([0x61, 0x0A, 0x22] :: jsstring, JNull)]]" by simp
    have k': "([0x61, 0x0A, 0x22], JNull) \<in> set ([[([0x61, 0x0A, 0x22] :: jsstring, JNull)]] ! 0)"
      by simp
    have e: "QuoteJSONString [0x61, 0x0A, 0x22] = [0x22, 0x61, 0x5C, 0x6E, 0x5C, 0x22, 0x22]"
      by (simp add: QuoteJSONString_def quote_unit_def lead_surrogate_def trail_surrogate_def)
    from step_block_shows_every_key [OF i' k']
    have "sublist (QuoteJSONString [0x61, 0x0A, 0x22] @ str '': '' @ SerializeJSONProperty gap JNull)
            (JSON_stringify (JObj [([0x61, 0x0A, 0x22], JNull)]))
        \<and> JSON_parse_string (QuoteJSONString [0x61, 0x0A, 0x22]) = Some [0x61, 0x0A, 0x22]"
      by auto
    then show ?thesis
      by (simp add: e str_def)
  qed
  ultimately show ?thesis by (simp add: q)
qed


text \<open>
  C8: \<open>LogViewer\<close> reads its prop \<open>logs\<close> and its cell \<open>isOpen\<close> and nothing else, so it is
  a function of the two here. About the program: leaving every click out of a run changes
  nothing of the conversation, the input, \<open>isLoading\<close>, the requests posted, the suspended
  invocations or the console, in the cells and in the rendered page alike; a click sets
  the cell of its own viewer and no other cell; no handler of another event sets a viewer's
  cell; and a re-render changes nothing of the conversation, only drops the cells of the
  viewers that are no longer mounted, and rendering again changes nothing.
\<close>

theorem toggle_is_local:
  "(run evs b = Some b1 \<longrightarrow>
      (\<exists>c. run (filter (\<lambda>ev. \<not> is_Toggle ev) evs) b = Some c
         \<and> conversation (current c) = conversation (current b1)
         \<and> conversation (rendered c) = conversation (rendered b1)
         \<and> mounted c = mounted b1))
   \<and> (fire (Toggle idx) b = Some b2 \<longrightarrow>
        messages (current b2) = messages (current b) \<and> input (current b2) = input (current b)
      \<and> isLoading (current b2) = isLoading (current b) \<and> posted (current b2) = posted (current b)
      \<and> awaiting (current b2) = awaiting (current b) \<and> console (current b2) = console (current b)
      \<and> rendered b2 = rendered b \<and> mounted b2 = mounted b
      \<and> isOpen (current b2) idx = (\<not> isOpen (rendered b) idx)
      \<and> (\<forall>jdx. jdx \<noteq> idx \<longrightarrow> isOpen (current b2) jdx = isOpen (current b) jdx))
   \<and> (\<not> is_Toggle ev \<and> ev \<noteq> Render \<and> fire ev b = Some b3 \<longrightarrow>
        isOpen (current b3) = isOpen (current b))
   \<and> (fire Render b = Some b4 \<longrightarrow>
        conversation (current b4) = conversation (current b) \<and> rendered b4 = current b4
      \<and> (\<forall>jdx. isOpen (current b4) jdx
                 = (isOpen (current b) jdx \<and> viewer_mounted (current b) jdx))
      \<and> fire Render b4 = Some b4)"
proof -
  have one: "\<exists>c. run (filter (\<lambda>ev. \<not> is_Toggle ev) evs) b = Some c
         \<and> conversation (current c) = conversation (current b1)
         \<and> conversation (rendered c) = conversation (rendered b1)
         \<and> mounted c = mounted b1"
    if "run evs b = Some b1"
    using run_without_toggles [OF same_conversation_refl that]
    by (auto simp: same_conversation_def)
  have two: "messages (current b2) = messages (current b) \<and> input (current b2) = input (current b)
      \<and> isLoading (current b2) = isLoading (current b) \<and> posted (current b2) = posted (current b)
      \<and> awaiting (current b2) = awaiting (current b) \<and> console (current b2) = console (current b)
      \<and> rendered b2 = rendered b \<and> mounted b2 = mounted b
      \<and> isOpen (current b2) idx = (\<not> isOpen (rendered b) idx)
      \<and> (\<forall>jdx. jdx \<noteq> idx \<longrightarrow> isOpen (current b2) jdx = isOpen (current b) jdx)"
    if "fire (Toggle idx) b = Some b2"
    using that by (auto simp: toggle_def split: if_splits)
  have four: "conversation (current b4) = conversation (current b) \<and> rendered b4 = current b4
      \<and> (\<forall>jdx. isOpen (current b4) jdx
                 = (isOpen (current b) jdx \<and> viewer_mounted (current b) jdx))
      \<and> fire Render b4 = Some b4"
    if "fire Render b = Some b4"
    using that
    by (auto simp: conversation_def commit_simps commit_commit split: if_splits)
      (simp_all add: commit_def)
  have three: "isOpen (current b3) = isOpen (current b)"
    if "\<not> is_Toggle ev \<and> ev \<noteq> Render \<and> fire ev b = Some b3"
    using that fire_keeps_isOpen [of ev b b3] by simp
  show ?thesis
  proof (intro conjI)
    show "run evs b = Some b1 \<longrightarrow>
      (\<exists>c. run (filter (\<lambda>ev. \<not> is_Toggle ev) evs) b = Some c
         \<and> conversation (current c) = conversation (current b1)
         \<and> conversation (rendered c) = conversation (rendered b1)
         \<and> mounted c = mounted b1)"
      using one by (rule impI)
    show "\<not> is_Toggle ev \<and> ev \<noteq> Render \<and> fire ev b = Some b3 \<longrightarrow>
        isOpen (current b3) = isOpen (current b)"
      using three by (rule impI)
  qed (use two four in blast)+
qed


theorem toggle_is_local_witness:
  "map_option (\<lambda>b. conversation (current b))
     (run [Change (str ''test''), Render, Submit, Render,
           Settle (Fulfilled \<lparr>response = Some (str ''ok''),
                              data_logs = Some [[(str ''step'', JNull)]]\<rparr>),
           Render, Toggle 1, Change (str ''x''), Toggle 1, Render]
        (browser_init :: unit browser))
   = map_option (\<lambda>b. conversation (current b))
     (run (filter (\<lambda>ev. \<not> is_Toggle ev)
          [Change (str ''test''), Render, Submit, Render,
           Settle (Fulfilled \<lparr>response = Some (str ''ok''),
                              data_logs = Some [[(str ''step'', JNull)]]\<rparr>),
           Render, Toggle 1, Change (str ''x''), Toggle 1, Render])
        (browser_init :: unit browser))
   \<and> map_option (\<lambda>b. isOpen (current b) 1)
     (run [Change (str ''test''), Render, Submit, Render,
           Settle (Fulfilled \<lparr>response = Some (str ''ok''),
                              data_logs = Some [[(str ''step'', JNull)]]\<rparr>),
           Render, Toggle 1, Change (str ''x''), Toggle 1, Render]
        (browser_init :: unit browser))
   = Some True"
proof -
  let ?evs = "[Change (str ''test''), Render, Submit, Render,
           Settle (Fulfilled \<lparr>response = Some (str ''ok''),
                              data_logs = Some [[(str ''step'', JNull)]]\<rparr>),
           Render, Toggle 1, Change (str ''x''), Toggle 1, Render] :: unit event list"
  have "\<exists>b1. run ?evs browser_init = Some b1 \<and> isOpen (current b1) 1"
    using trim_nonempty_test
    by (simp add: browser_init_def page_init_def controller_defs trace_view_None_iff
        answer_def pending_def placeholder_def commit_def viewer_mounted_def)
  then obtain b1 where r: "run ?evs browser_init = Some b1" and o: "isOpen (current b1) 1"
    by blast
  from toggle_is_local [where evs = ?evs and b = browser_init and ?b1.0 = b1,
      THEN conjunct1] r
  obtain c where "run (filter (\<lambda>ev. \<not> is_Toggle ev) ?evs) browser_init = Some c"
    and "conversation (current c) = conversation (current b1)"
    by blast
  with r o show ?thesis by simp
qed

text \<open>
  C9: an accepted submit posts exactly one request, to the chat endpoint, carrying the
  submitted text; a refused submit posts none; resuming after the settlement, whatever it
  is, posts none and ends the invocation, so a failure is never retried. This holds of the
  handler of any render. Hence in every reachable state the requests posted are, one for one
  and in order, the user messages of the conversation.
\<close>

theorem one_request_per_submit:
  assumes "reachable b"
  shows "map (\<lambda>q. Some (message q)) (posted (current b))
           = map content (filter (\<lambda>m. role m = User) (messages (current b)))
       \<and> (trim (input s) \<noteq> [] \<and> \<not> isLoading s \<longrightarrow>
            posted (handleSend s) =
              posted s @ [\<lparr>url = str ''http://localhost:8000/api/chat'', message = input s\<rparr>])
       \<and> (trim (input s) = [] \<or> isLoading s \<longrightarrow> posted (handleSend s) = posted s)
       \<and> (trim (input r) \<noteq> [] \<and> \<not> isLoading r \<longrightarrow>
            posted (handleSend_from r s) =
              posted s @ [\<lparr>url = str ''http://localhost:8000/api/chat'', message = input r\<rparr>])
       \<and> (trim (input r) = [] \<or> isLoading r \<longrightarrow> posted (handleSend_from r s) = posted s)
       \<and> posted (handleSend_resume x s) = posted s
       \<and> awaiting (handleSend_resume x s) = awaiting s - 1"
proof -
  from assms have "posted_inv (current b)" by (rule reachable_posted_inv)
  then have "map (\<lambda>q. Some (message q)) (posted (current b))
           = map content (filter (\<lambda>m. role m = User) (messages (current b)))"
    by (simp add: posted_inv_def)
  moreover have "posted (handleSend_resume x s) = posted s
       \<and> awaiting (handleSend_resume x s) = awaiting s - 1"
    by (cases x) (simp_all add: controller_defs)
  ultimately show ?thesis
    by (simp add: controller_defs API_BASE_URL_def str_def)
qed

theorem one_request_per_submit_witness:
  "posted (handleSend (setInput (str ''test'') (page_init :: unit page)))
     = [\<lparr>url = str ''http://localhost:8000/api/chat'', message = str ''test''\<rparr>]
   \<and> posted (handleSend_resume (Rejected ())
        (handleSend (setInput (str ''test'') (page_init :: unit page))))
     = [\<lparr>url = str ''http://localhost:8000/api/chat'', message = str ''test''\<rparr>]
   \<and> posted (handleSend (setInput (str ''again'')
        (handleSend (setInput (str ''test'') (page_init :: unit page)))))
     = [\<lparr>url = str ''http://localhost:8000/api/chat'', message = str ''test''\<rparr>]"
proof -
  let ?asked = "setInput (str ''test'') (page_init :: unit page)"
  let ?sent = "handleSend ?asked"
  let ?again = "setInput (str ''again'') ?sent"
  have t: "trim (input ?asked) \<noteq> [] \<and> \<not> isLoading ?asked"
    using trim_nonempty_test by (simp add: setInput_def page_init_def)
  have p0: "posted ?asked = []"
    by (simp add: setInput_def page_init_def)
  have l2: "trim (input ?again) = [] \<or> isLoading ?again"
    by (simp add: sent_test) (simp add: setInput_def)
  have p2: "posted ?again = posted ?sent"
    by (simp add: setInput_def)
  from one_request_per_submit [OF reachable_sent_test, where s = ?asked and r = ?asked
      and x = "Rejected ()", THEN conjunct2] t p0
  have a: "posted ?sent = [\<lparr>url = str ''http://localhost:8000/api/chat'', message = str ''test''\<rparr>]"
    by (simp add: setInput_def)
  from one_request_per_submit [OF reachable_sent_test, where s = ?sent and r = ?sent
      and x = "Rejected ()", THEN conjunct2]
  have b: "posted (handleSend_resume (Rejected ()) ?sent) = posted ?sent"
    by simp
  from one_request_per_submit [OF reachable_sent_test, where s = ?again and r = ?again
      and x = "Rejected ()", THEN conjunct2] l2 p2
  have c: "posted (handleSend ?again) = posted ?sent"
    by simp
  from a b c show ?thesis by simp
qed

text \<open>
  C10 fails on the code, by the same stale guard as C5. After two submits delivered before
  a re-render the first placeholder is pending and is not the last element, and the
  settlement that resumes first rewrites the last position, whichever invocation it resumes:
  resuming twice rewrites the placeholder of the second invocation twice and that of the
  first never.
\<close>

theorem two_submits_wrong_target:
  "map_option (\<lambda>b. messages (current b))
     (run [Change (str ''test''), Render, Submit, Submit] (browser_init :: unit browser))
   = Some [userMsg (str ''test''), placeholder, userMsg (str ''test''), placeholder]
   \<and> map_option (\<lambda>b. messages (current b))
     (run [Change (str ''test''), Render, Submit, Submit,
           Settle (Fulfilled \<lparr>response = Some (str ''first''), data_logs = Some []\<rparr>)]
        (browser_init :: unit browser))
   = Some [userMsg (str ''test''), placeholder, userMsg (str ''test''),
           answer \<lparr>response = Some (str ''first''), data_logs = Some []\<rparr>]
   \<and> map_option (\<lambda>b. messages (current b))
     (run [Change (str ''test''), Render, Submit, Submit,
           Settle (Fulfilled \<lparr>response = Some (str ''first''), data_logs = Some []\<rparr>),
           Settle (Fulfilled \<lparr>response = Some (str ''second''), data_logs = Some []\<rparr>)]
        (browser_init :: unit browser))
   = Some [userMsg (str ''test''), placeholder, userMsg (str ''test''),
           answer \<lparr>response = Some (str ''second''), data_logs = Some []\<rparr>]"
  using trim_nonempty_test
  by (simp add: browser_init_def page_init_def controller_defs commit_def)

end
